theory Spec2Isabelle
  imports Main "HOL-Library.Word" "HOL-Library.Char_ord" "HOL-Library.List_Lexorder"
begin

unbundle bit_operations_syntax

section \<open>Bytes and little-endian helpers (binary\_xml.go)\<close>

text \<open>
  A Go \<^verbatim>\<open>string\<close> is a sequence of bytes; it is modelled as \<^typ>\<open>string\<close>, whose
  characters are bytes (\<^term>\<open>of_char c\<close> is the byte value).  Go compares strings
  byte-wise and lexicographically, which is the order of \<^typ>\<open>char list\<close> here.
  A \<^verbatim>\<open>[]byte\<close> is a list of 8-bit words.
\<close>

type_synonym byte = "8 word"
type_synonym u16 = "16 word"
type_synonym u32 = "32 word"

definition appendU16 :: "byte list \<Rightarrow> u16 \<Rightarrow> byte list" where
  "appendU16 b v = b @ [ucast v, ucast (drop_bit 8 v)]"

definition appendU32 :: "byte list \<Rightarrow> u32 \<Rightarrow> byte list" where
  "appendU32 b v = b @ [ucast v, ucast (drop_bit 8 v), ucast (drop_bit 16 v), ucast (drop_bit 24 v)]"

definition headerXML :: u16 where "headerXML = 0x0003"
definition headerStringPool :: u16 where "headerStringPool = 0x0001"
definition headerResourceMap :: u16 where "headerResourceMap = 0x0180"
definition headerStartNamespace :: u16 where "headerStartNamespace = 0x0100"
definition headerEndNamespace :: u16 where "headerEndNamespace = 0x0101"
definition headerStartElement :: u16 where "headerStartElement = 0x0102"
definition headerEndElement :: u16 where "headerEndElement = 0x0103"

text \<open>
  \<^verbatim>\<open>appendHeader(b, typ, size)\<close>: the size is a Go \<^verbatim>\<open>int\<close>; the conversion
  \<^verbatim>\<open>uint16(size)\<close> keeps its low 16 bits.
\<close>

definition appendHeader :: "byte list \<Rightarrow> u16 \<Rightarrow> int \<Rightarrow> byte list" where
  "appendHeader b typ sz =
     (let b = appendU16 b typ;
          b = appendU16 b 8;
          b = appendU16 b (word_of_int sz);
          b = appendU16 b 0
      in b)"

text \<open>Reading a little-endian 32-bit field back, to state what a field holds.\<close>

definition readU32 :: "byte list \<Rightarrow> nat \<Rightarrow> int" where
  "readU32 b i = uint (b ! i) + 256 * uint (b ! (i + 1)) + 65536 * uint (b ! (i + 2))
                 + 16777216 * uint (b ! (i + 3))"

section \<open>Runes and UTF-16 (the Go library functions the string pool calls)\<close>

text \<open>
  \<^verbatim>\<open>utf8.DecodeRuneInString\<close>: the rune at the head of a string and its width in
  bytes.  An invalid or short sequence decodes to \<^verbatim>\<open>RuneError\<close> (U+FFFD) of width 1.
  The second byte of a multi-byte sequence must lie in the range the first byte accepts.
\<close>

definition RuneError :: int where "RuneError = 0xFFFD"

definition cont_byte :: "nat \<Rightarrow> bool" where
  "cont_byte b = (0x80 \<le> b \<and> b \<le> 0xBF)"

definition accept_lo :: "nat \<Rightarrow> nat" where
  "accept_lo b0 = (if b0 = 0xE0 then 0xA0 else if b0 = 0xF0 then 0x90 else 0x80)"

definition accept_hi :: "nat \<Rightarrow> nat" where
  "accept_hi b0 = (if b0 = 0xED then 0x9F else if b0 = 0xF4 then 0x8F else 0xBF)"

definition rune_size :: "nat \<Rightarrow> nat" where
  "rune_size b0 =
     (if b0 < 0x80 then 1
      else if 0xC2 \<le> b0 \<and> b0 \<le> 0xDF then 2
      else if 0xE0 \<le> b0 \<and> b0 \<le> 0xEF then 3
      else if 0xF0 \<le> b0 \<and> b0 \<le> 0xF4 then 4
      else 0)"

definition DecodeRuneInString :: "string \<Rightarrow> int \<times> nat" where
  "DecodeRuneInString str =
     (case map of_char str of
        [] \<Rightarrow> (RuneError, 0)
      | s0 # rest \<Rightarrow>
          let sz = rune_size s0 in
          if sz = 1 then (int s0, 1)
          else if sz = 0 then (RuneError, 1)
          else if length str < sz then (RuneError, 1)
          else
            let s1 = rest ! 0 in
            if s1 < accept_lo s0 \<or> accept_hi s0 < s1 then (RuneError, 1)
            else if sz \<le> 2 then (int ((s0 mod 32) * 64 + s1 mod 64), 2)
            else
              let s2 = rest ! 1 in
              if \<not> cont_byte s2 then (RuneError, 1)
              else if sz \<le> 3 then
                (int ((s0 mod 16) * 4096 + (s1 mod 64) * 64 + s2 mod 64), 3)
              else
                let s3 = rest ! 2 in
                if \<not> cont_byte s3 then (RuneError, 1)
                else (int ((s0 mod 8) * 262144 + (s1 mod 64) * 4096
                           + (s2 mod 64) * 64 + s3 mod 64), 4))"

text \<open>\<^verbatim>\<open>[]rune(str)\<close>: decode rune after rune.\<close>

fun runes :: "string \<Rightarrow> int list" where
  "runes [] = []"
| "runes (c # cs) =
     (let (r, n) = DecodeRuneInString (c # cs) in r # runes (drop (n - 1) cs))"

text \<open>
  \<^verbatim>\<open>utf16.Encode\<close>: a rune below the surrogate range or in U+E000..U+FFFF is one code
  unit, a rune in U+10000..U+10FFFF is a surrogate pair, anything else is U+FFFD.
\<close>

definition EncodeRune :: "int \<Rightarrow> u16 list" where
  "EncodeRune v =
     (if (0 \<le> v \<and> v < 0xD800) \<or> (0xE000 \<le> v \<and> v < 0x10000) then [word_of_int v]
      else if 0x10000 \<le> v \<and> v \<le> 0x10FFFF then
        [word_of_int (0xD800 + ((v - 0x10000) div 1024) mod 1024),
         word_of_int (0xDC00 + (v - 0x10000) mod 1024)]
      else [0xFFFD])"

definition utf16_Encode :: "int list \<Rightarrow> u16 list" where
  "utf16_Encode rs = concat (map EncodeRune rs)"

text \<open>
  \<^verbatim>\<open>utf8.ValidString\<close>: no rune of the string decodes as an encoding error (U+FFFD of
  width 1).  The XML decoder hands out valid strings only.
\<close>

fun ValidString :: "string \<Rightarrow> bool" where
  "ValidString [] = True"
| "ValidString (c # cs) =
     (let (r, n) = DecodeRuneInString (c # cs)
      in \<not> (r = RuneError \<and> n = 1) \<and> ValidString (drop (n - 1) cs))"

section \<open>The string pool\<close>

text \<open>
  The pool holds pointers \<^verbatim>\<open>*bstring\<close>, and the chunks built during parsing hold the
  same pointers; \<^verbatim>\<open>Swap\<close> writes through them.  The objects therefore live in an
  explicit heap (a list; a pointer is a position in it), and the pool's slice and map
  hold pointers.  The fields \<^verbatim>\<open>s\<close> and \<^verbatim>\<open>m\<close> of \<^verbatim>\<open>binStringPool\<close> are
  \<open>pool_s\<close> and \<open>pool_m\<close> here.
\<close>

record bstring =
  ind :: u32
  str :: string
  enc :: "byte list"

type_synonym ref = nat
type_synonym heap = "bstring list"

record binStringPool =
  pool_s :: "ref list"
  pool_m :: "string \<rightharpoonup> ref"

definition new_binStringPool :: binStringPool where
  "new_binStringPool = \<lparr>pool_s = [], pool_m = Map.empty\<rparr>"

text \<open>A panic unwinds the program; nothing in this package recovers from it.\<close>

datatype panic =
    StringTooLong nat string
  | UnexpectedAttrType

text \<open>
  \<^verbatim>\<open>get\<close>: the existing entry, or a new one whose index is the pool's length.  The
  length written in front of the UTF-16 code units is \<^verbatim>\<open>uint16(len(str))\<close>, and
  \<^verbatim>\<open>len\<close> of a Go string is its number of bytes.  The panic carries the length and the
  first 100 bytes of the string.
\<close>

definition encode_bstring :: "string \<Rightarrow> byte list" where
  "encode_bstring st =
     (let e = appendU16 [] (of_nat (length st));
          e = foldl appendU16 e (utf16_Encode (runes st));
          e = appendU16 e 0
      in e)"

definition get :: "string \<Rightarrow> heap \<times> binStringPool \<Rightarrow> panic + (ref \<times> heap \<times> binStringPool)" where
  "get st hp =
     (case hp of (h, p) \<Rightarrow>
        (case pool_m p st of
           Some res \<Rightarrow> Inr (res, h, p)
         | None \<Rightarrow>
             let res = length h;
                 h1 = h @ [\<lparr>ind = of_nat (length (pool_s p)), str = st, enc = []\<rparr>];
                 p1 = p\<lparr>pool_s := pool_s p @ [res], pool_m := (pool_m p)(st \<mapsto> res)\<rparr>
             in if drop_bit 16 (length st) > 0 then Inl (StringTooLong (length st) (take 100 st))
                else Inr (res, h1[res := (h1 ! res)\<lparr>enc := encode_bstring st\<rparr>], p1)))"

definition stringPoolPreamble :: int where
  "stringPoolPreamble = 0 + 8 + 4 + 4 + 4 + 4 + 4 + 0"

text \<open>\<^verbatim>\<open>size\<close>: the loop over the entries adds the lengths of their encodings.\<close>

definition pool_size :: "heap \<Rightarrow> binStringPool \<Rightarrow> int" where
  "pool_size h p =
     (let strLens = foldl (\<lambda>acc a. acc + int (length (enc (h ! a)))) 0 (pool_s p)
      in stringPoolPreamble + 4 * int (length (pool_s p)) + strLens + 2)"

text \<open>
  \<^verbatim>\<open>append\<close>: header, counts, the offset of each encoding, the encodings, a 16-bit zero.
  The loop state of the offsets loop is the pair of the bytes and the running offset.
\<close>

definition offsets_step :: "heap \<Rightarrow> byte list \<times> int \<Rightarrow> ref \<Rightarrow> byte list \<times> int" where
  "offsets_step h = (\<lambda>(b, off) a. (appendU32 b (word_of_int off), off + int (length (enc (h ! a)))))"

definition pool_append :: "heap \<Rightarrow> binStringPool \<Rightarrow> byte list \<Rightarrow> byte list" where
  "pool_append h p b =
     (let stringsStart = (word_of_int (stringPoolPreamble + 4 * int (length (pool_s p))) :: u32);
          b = appendU16 b headerStringPool;
          b = appendU16 b 0x1c;
          b = appendU16 b (word_of_int (pool_size h p));
          b = appendU16 b 0;
          b = appendU32 b (of_nat (length (pool_s p)));
          b = appendU32 b 0;
          b = appendU32 b 0;
          b = appendU32 b stringsStart;
          b = appendU32 b 0;
          (b, off) = foldl (offsets_step h) (b, 0) (pool_s p);
          b = foldl (\<lambda>b a. b @ enc (h ! a)) b (pool_s p);
          b = appendU16 b 0
      in b)"


text \<open>The bytes \<^verbatim>\<open>append\<close> writes between the header fields and the encodings.\<close>

definition pool_offsets :: "heap \<Rightarrow> ref list \<Rightarrow> byte list" where
  "pool_offsets h xs = fst (foldl (offsets_step h) ([], 0) xs)"

section \<open>Sorting the pool\<close>

text \<open>
  \<^verbatim>\<open>Len\<close>, \<^verbatim>\<open>Less\<close> and \<^verbatim>\<open>Swap\<close> make the pool a \<^verbatim>\<open>sort.Interface\<close>.
  \<^verbatim>\<open>Swap\<close> exchanges the two pointers in the slice and then the \<^verbatim>\<open>ind\<close> fields of the
  two objects they point to, in the order of Go's tuple assignment (right-hand sides
  first).  The sort calls both with indices below \<^verbatim>\<open>Len\<close> only.
\<close>

definition Len :: "heap \<times> binStringPool \<Rightarrow> nat" where
  "Len hp = length (pool_s (snd hp))"

definition Less :: "nat \<Rightarrow> nat \<Rightarrow> heap \<times> binStringPool \<Rightarrow> bool" where
  "Less i j hp = (case hp of (h, p) \<Rightarrow> str (h ! (pool_s p ! i)) < str (h ! (pool_s p ! j)))"

definition Swap :: "nat \<Rightarrow> nat \<Rightarrow> heap \<times> binStringPool \<Rightarrow> heap \<times> binStringPool" where
  "Swap i j hp =
     (case hp of (h, p) \<Rightarrow>
        let s1 = (pool_s p)[i := pool_s p ! j, j := pool_s p ! i];
            ai = s1 ! i;
            aj = s1 ! j;
            vi = ind (h ! aj);
            vj = ind (h ! ai);
            h1 = h[ai := (h ! ai)\<lparr>ind := vi\<rparr>];
            h2 = h1[aj := (h1 ! aj)\<lparr>ind := vj\<rparr>]
        in (h2, p\<lparr>pool_s := s1\<rparr>))"

text \<open>
  \<^verbatim>\<open>sort.Sort\<close> is the Go library's: it orders the data through \<^verbatim>\<open>Less\<close> and
  \<^verbatim>\<open>Swap\<close> alone.  It is modelled by the library's \<^verbatim>\<open>insertionSort\<close>, which is what
  \<^verbatim>\<open>sort.Sort\<close> runs on short inputs:
  \<^verbatim>\<open>for i := a+1; i < b; i++ { for j := i; j > a && Less(j, j-1); j-- { Swap(j, j-1) } }\<close>.
\<close>

fun sift_down_to :: "nat \<Rightarrow> heap \<times> binStringPool \<Rightarrow> heap \<times> binStringPool" where
  "sift_down_to 0 hp = hp"
| "sift_down_to (Suc j) hp = (if Less (Suc j) j hp then sift_down_to j (Swap (Suc j) j hp) else hp)"

definition insertionSort :: "heap \<times> binStringPool \<Rightarrow> nat \<Rightarrow> nat \<Rightarrow> heap \<times> binStringPool" where
  "insertionSort hp a b = foldl (\<lambda>hp i. sift_down_to i hp) hp [a + 1..<b]"

definition sortPool :: "heap \<times> binStringPool \<Rightarrow> heap \<times> binStringPool" where
  "sortPool hp = insertionSort hp 0 (Len hp)"

text \<open>Interning a list of strings one after the other; a panic ends the run.\<close>

fun get_all :: "string list \<Rightarrow> heap \<times> binStringPool \<Rightarrow> panic + (heap \<times> binStringPool)" where
  "get_all [] hp = Inr hp"
| "get_all (st # sts) hp =
     (case get st hp of Inl pn \<Rightarrow> Inl pn | Inr (res, h, p) \<Rightarrow> get_all sts (h, p))"

text \<open>The strings of the pool in slice order, and the stored indices in slice order.\<close>

definition pool_strs :: "heap \<times> binStringPool \<Rightarrow> string list" where
  "pool_strs hp = map (\<lambda>a. str (fst hp ! a)) (pool_s (snd hp))"

definition pool_inds :: "heap \<times> binStringPool \<Rightarrow> u32 list" where
  "pool_inds hp = map (\<lambda>a. ind (fst hp ! a)) (pool_s (snd hp))"

section \<open>Attributes\<close>

record xml_Name =
  Space :: string
  Local :: string

record xml_Attr =
  Name :: xml_Name
  Value :: string

text \<open>
  The \<^verbatim>\<open>data interface{}\<close> of a \<^verbatim>\<open>binAttr\<close> holds an \<^verbatim>\<open>int\<close>, a \<^verbatim>\<open>bool\<close>,
  a \<^verbatim>\<open>uint32\<close> or a \<^verbatim>\<open>*bstring\<close>, or is \<^verbatim>\<open>nil\<close> as long as it is not set.
\<close>

datatype attr_data = DNil | DInt int | DBool bool | DU32 u32 | DStr ref

record binAttr =
  ns :: ref
  name :: ref
  data :: attr_data

datatype num_err = ErrSyntax | ErrRange

text \<open>
  Error values: \<^verbatim>\<open>*strconv.NumError{Func, Num, Err}\<close>; the error
  \<^verbatim>\<open>fmt.Errorf("%d: %s: %v", line, a.Name.Local, err)\<close> of \<^verbatim>\<open>binaryXML\<close>, kept as its
  three arguments; and an error of the XML decoder.
\<close>

datatype go_error =
    NumError string string num_err
  | Errorf_line_local int string go_error
  | DecoderError string

text \<open>
  \<^verbatim>\<open>strconv.Atoi\<close>: an optional sign and decimal digits, within the range of a 64-bit
  \<^verbatim>\<open>int\<close>.
\<close>

definition is_digit :: "char \<Rightarrow> bool" where
  "is_digit c = (CHR ''0'' \<le> c \<and> c \<le> CHR ''9'')"

definition digits_value :: "string \<Rightarrow> int" where
  "digits_value ds = foldl (\<lambda>n c. n * 10 + (of_char c - 48)) 0 ds"

definition Atoi :: "string \<Rightarrow> go_error + int" where
  "Atoi v =
     (let neg = (v \<noteq> [] \<and> hd v = CHR ''-'');
          ds = (if v \<noteq> [] \<and> (hd v = CHR ''-'' \<or> hd v = CHR ''+'') then tl v else v)
      in if ds = [] \<or> \<not> list_all is_digit ds then Inl (NumError ''Atoi'' v ErrSyntax)
         else let n = digits_value ds in
           if (neg \<and> n > 2 ^ 63) \<or> (\<not> neg \<and> n \<ge> 2 ^ 63) then Inl (NumError ''Atoi'' v ErrRange)
           else Inr (if neg then - n else n))"

text \<open>\<^verbatim>\<open>strconv.ParseBool\<close> accepts exactly twelve spellings.\<close>

definition ParseBool :: "string \<Rightarrow> go_error + bool" where
  "ParseBool v =
     (if v \<in> set [''1'', ''t'', ''T'', ''TRUE'', ''true'', ''True''] then Inr True
      else if v \<in> set [''0'', ''f'', ''F'', ''FALSE'', ''false'', ''False''] then Inr False
      else Inl (NumError ''ParseBool'' v ErrSyntax))"

text \<open>\<^verbatim>\<open>strings.Split(s, sep)\<close> for a separator of one byte; the empty string gives one empty piece.\<close>

primrec Split :: "string \<Rightarrow> char \<Rightarrow> string list" where
  "Split [] sep = [[]]"
| "Split (c # cs) sep =
     (if c = sep then [] # Split cs sep
      else (case Split cs sep of [] \<Rightarrow> [[c]] | piece # pieces \<Rightarrow> (c # piece) # pieces))"

definition resourceCodes :: "string \<rightharpoonup> u32" where
  "resourceCodes = map_of
     [(''versionCode'', 0x0101021b),
      (''versionName'', 0x0101021c),
      (''minSdkVersion'', 0x0101020c),
      (''label'', 0x01010001),
      (''hasCode'', 0x0101000c),
      (''debuggable'', 0x0101000f),
      (''name'', 0x01010003),
      (''configChanges'', 0x0101001f),
      (''value'', 0x01010024)]"

definition configChanges :: "string \<rightharpoonup> u32" where
  "configChanges = map_of
     [(''mcc'', 0x0001),
      (''mnc'', 0x0002),
      (''locale'', 0x0004),
      (''touchscreen'', 0x0008),
      (''keyboard'', 0x0010),
      (''keyboardHidden'', 0x0020),
      (''navigation'', 0x0040),
      (''orientation'', 0x0080),
      (''screenLayout'', 0x0100),
      (''uiMode'', 0x0200),
      (''screenSize'', 0x0400),
      (''smallestScreenSize'', 0x0800),
      (''layoutDirection'', 0x2000),
      (''fontScale'', 0x40000000)]"

text \<open>Indexing a Go map with a missing key gives the zero value.\<close>

definition configChanges_at :: "string \<Rightarrow> u32" where
  "configChanges_at c = (case configChanges c of None \<Rightarrow> 0 | Some v \<Rightarrow> v)"

definition android_ns :: string where
  "android_ns = ''http://schemas.android.com/apk/res/android''"

text \<open>
  \<^verbatim>\<open>getAttr\<close> returns \<^verbatim>\<open>(binAttr, error)\<close>: \<open>Inl err\<close> stands for
  \<^verbatim>\<open>(binAttr{}, err)\<close> and \<open>Inr a\<close> for \<^verbatim>\<open>(a, nil)\<close>.  The pool it has written to
  is returned beside it; a panic of \<^verbatim>\<open>get\<close> ends the call.
\<close>

definition getAttr ::
  "xml_Attr \<Rightarrow> heap \<times> binStringPool \<Rightarrow> panic + ((go_error + binAttr) \<times> heap \<times> binStringPool)" where
  "getAttr attr hp =
     (case get (Space (Name attr)) hp of Inl pn \<Rightarrow> Inl pn | Inr (r_ns, h1, p1) \<Rightarrow>
      case get (Local (Name attr)) (h1, p1) of Inl pn \<Rightarrow> Inl pn | Inr (r_name, h2, p2) \<Rightarrow>
        let a = \<lparr>ns = r_ns, name = r_name, data = DNil\<rparr> in
        if Space (Name attr) \<noteq> android_ns then
          (case get (Value attr) (h2, p2) of Inl pn \<Rightarrow> Inl pn
           | Inr (r, h3, p3) \<Rightarrow> Inr (Inr (a\<lparr>data := DStr r\<rparr>), h3, p3))
        else if Local (Name attr) = ''versionCode'' \<or> Local (Name attr) = ''minSdkVersion'' then
          (case Atoi (Value attr) of
             Inl err \<Rightarrow> Inr (Inl err, h2, p2)
           | Inr v \<Rightarrow> Inr (Inr (a\<lparr>data := DInt v\<rparr>), h2, p2))
        else if Local (Name attr) = ''hasCode'' \<or> Local (Name attr) = ''debuggable'' then
          (case ParseBool (Value attr) of
             Inl err \<Rightarrow> Inr (Inl err, h2, p2)
           | Inr v \<Rightarrow> Inr (Inr (a\<lparr>data := DBool v\<rparr>), h2, p2))
        else if Local (Name attr) = ''configChanges'' then
          (let v = foldl (\<lambda>v c. v OR configChanges_at c) 0 (Split (Value attr) CHR ''|'')
           in Inr (Inr (a\<lparr>data := DU32 v\<rparr>), h2, p2))
        else
          (case get (Value attr) (h2, p2) of Inl pn \<Rightarrow> Inl pn
           | Inr (r, h3, p3) \<Rightarrow> Inr (Inr (a\<lparr>data := DStr r\<rparr>), h3, p3)))"

text \<open>
  \<^verbatim>\<open>binAttr.append\<close>: the type switch has cases for \<^verbatim>\<open>int\<close>, \<^verbatim>\<open>bool\<close> and
  \<^verbatim>\<open>uint32\<close>; any other value panics.
\<close>

definition binAttr_append :: "heap \<Rightarrow> binAttr \<Rightarrow> byte list \<Rightarrow> panic + byte list" where
  "binAttr_append h a b =
     (let b = appendU32 b (ind (h ! ns a));
          b = appendU32 b (ind (h ! name a));
          b = appendU32 b 0xffffffff;
          b = appendU16 b 8;
          b = appendU16 b 0
      in case data a of
           DInt v \<Rightarrow> Inr (appendU32 (b @ [0x10]) (word_of_int v))
         | DBool v \<Rightarrow> Inr (if v then appendU32 (b @ [0x12]) 1 else appendU32 (b @ [0x12]) 0)
         | DU32 v \<Rightarrow> Inr (appendU32 (b @ [0x10]) v)
         | DStr r \<Rightarrow> Inl UnexpectedAttrType
         | DNil \<Rightarrow> Inl UnexpectedAttrType)"

section \<open>Line numbers\<close>

text \<open>
  \<^verbatim>\<open>lineReader\<close> wraps the reader the XML decoder reads from.  \<^verbatim>\<open>Read\<close> is given the
  bytes the wrapped reader delivered in this call; it records the offset of every newline
  among them.  \<^verbatim>\<open>line\<close> is \<^verbatim>\<open>sort.Search\<close>, the library's binary search for the
  least index at which the predicate holds.
\<close>

record lineReader =
  off :: int
  lines :: "int list"

definition new_lineReader :: lineReader where
  "new_lineReader = \<lparr>off = 0, lines = []\<rparr>"

definition Read :: "lineReader \<Rightarrow> string \<Rightarrow> lineReader" where
  "Read r p =
     (let ls = foldl (\<lambda>ls i. if p ! i = CHR 0x0A then ls @ [off r + int i] else ls)
                 (lines r) [0..<length p]
      in \<lparr>off = off r + int (length p), lines = ls\<rparr>)"

function Search_loop :: "(nat \<Rightarrow> bool) \<Rightarrow> nat \<Rightarrow> nat \<Rightarrow> nat" where
  "Search_loop f i j =
     (if i < j then
        (let h = (i + j) div 2 in
         if \<not> f h then Search_loop f (h + 1) j else Search_loop f i h)
      else i)"
  by pat_completeness auto
termination
  by (relation "measure (\<lambda>(f, i, j). j - i)") auto

declare Search_loop.simps [simp del]

definition Search :: "nat \<Rightarrow> (nat \<Rightarrow> bool) \<Rightarrow> nat" where
  "Search n f = Search_loop f 0 n"

definition line :: "lineReader \<Rightarrow> int \<Rightarrow> int" where
  "line r pos = int (Search (length (lines r)) (\<lambda>i. pos < lines r ! i)) + 1"

text \<open>The number of newline bytes of the raw input before a position.\<close>

definition newlines_before :: "string \<Rightarrow> int \<Rightarrow> nat" where
  "newlines_before raw pos = length (filter (\<lambda>c. c = CHR 0x0A) (take (nat pos) raw))"


section \<open>The encoder\<close>

text \<open>
  \<^verbatim>\<open>strings.TrimSpace\<close> removes the leading and trailing runes that
  \<^verbatim>\<open>unicode.IsSpace\<close> accepts.  In UTF-8 these are six single bytes, U+0085 and U+00A0
  (two bytes each) and seventeen runes of three bytes.  The trailing side is trimmed on the
  reversed string.
\<close>

definition space1 :: "char \<Rightarrow> bool" where
  "space1 c = (c \<in> set [CHR 0x09, CHR 0x0A, CHR 0x0B, CHR 0x0C, CHR 0x0D, CHR 0x20])"

definition space2 :: "char \<Rightarrow> char \<Rightarrow> bool" where
  "space2 c0 c1 = (c0 = CHR 0xC2 \<and> (c1 = CHR 0x85 \<or> c1 = CHR 0xA0))"

definition space3 :: "char \<Rightarrow> char \<Rightarrow> char \<Rightarrow> bool" where
  "space3 c0 c1 c2 =
     ((c0 = CHR 0xE1 \<and> c1 = CHR 0x9A \<and> c2 = CHR 0x80)
      \<or> (c0 = CHR 0xE2 \<and> c1 = CHR 0x80 \<and> (CHR 0x80 \<le> c2 \<and> c2 \<le> CHR 0x8A))
      \<or> (c0 = CHR 0xE2 \<and> c1 = CHR 0x80 \<and> (c2 = CHR 0xA8 \<or> c2 = CHR 0xA9 \<or> c2 = CHR 0xAF))
      \<or> (c0 = CHR 0xE2 \<and> c1 = CHR 0x81 \<and> c2 = CHR 0x9F)
      \<or> (c0 = CHR 0xE3 \<and> c1 = CHR 0x80 \<and> c2 = CHR 0x80))"

fun trim_left :: "string \<Rightarrow> string" where
  "trim_left (c0 # c1 # c2 # cs) =
     (if space1 c0 then trim_left (c1 # c2 # cs)
      else if space2 c0 c1 then trim_left (c2 # cs)
      else if space3 c0 c1 c2 then trim_left cs
      else c0 # c1 # c2 # cs)"
| "trim_left [c0, c1] =
     (if space1 c0 then trim_left [c1] else if space2 c0 c1 then [] else [c0, c1])"
| "trim_left [c0] = (if space1 c0 then [] else [c0])"
| "trim_left [] = []"

fun trim_right_rev :: "string \<Rightarrow> string" where
  "trim_right_rev (c2 # c1 # c0 # cs) =
     (if space1 c2 then trim_right_rev (c1 # c0 # cs)
      else if space2 c1 c2 then trim_right_rev (c0 # cs)
      else if space3 c0 c1 c2 then trim_right_rev cs
      else c2 # c1 # c0 # cs)"
| "trim_right_rev [c1, c0] =
     (if space1 c1 then trim_right_rev [c0] else if space2 c0 c1 then [] else [c1, c0])"
| "trim_right_rev [c0] = (if space1 c0 then [] else [c0])"
| "trim_right_rev [] = []"

definition TrimSpace :: "string \<Rightarrow> string" where
  "TrimSpace v = rev (trim_right_rev (rev (trim_left v)))"

text \<open>
  The tokens of \<^verbatim>\<open>encoding/xml\<close>.  The decoder is the Go library's; one run of it is given
  by what it does at each call of \<^verbatim>\<open>Token\<close>: the value of \<^verbatim>\<open>InputOffset\<close> before the
  call, the chunks it reads through the \<^verbatim>\<open>lineReader\<close> during the call, and the token it
  returns.  The run ends with the call that returns an error, \<^verbatim>\<open>io.EOF\<close> or another.
\<close>

datatype xml_Token =
    StartElement xml_Name "xml_Attr list"
  | EndElement xml_Name
  | CharData string
  | Comment string
  | ProcInst string string
  | Directive string

record decoder_step =
  offset_before :: int
  chunks_read :: "string list"
  token :: xml_Token

datatype decoder_end = EOF | Failed string

text \<open>
  The chunks \<^verbatim>\<open>binStartNamspace\<close>, \<^verbatim>\<open>binEndNamspace\<close>, \<^verbatim>\<open>binStartElement\<close> and
  \<^verbatim>\<open>binEndElement\<close> of the \<^verbatim>\<open>elements\<close> slice, with their fields in the order of the
  declarations (line, two pointers, and the attributes for the elements).
\<close>

datatype element =
    BinStartNamspace int ref ref
  | BinEndNamspace int ref ref
  | BinStartElement int ref ref "binAttr list"
  | BinEndElement int ref ref "binAttr list"

text \<open>What ends a call of \<^verbatim>\<open>binaryXML\<close> without bytes: a panic, or a returned error.\<close>

datatype failure = Panicked panic | Returned go_error

record enc_state =
  lr :: lineReader
  pool :: "heap \<times> binStringPool"
  depth :: int
  elements :: "element list"
  namespaceEnds :: "int \<rightharpoonup> element"

text \<open>The loop over the attributes of a start element.\<close>

fun attr_loop ::
  "int \<Rightarrow> int \<Rightarrow> xml_Attr list
   \<Rightarrow> (heap \<times> binStringPool) \<times> element list \<times> (int \<rightharpoonup> element) \<times> binAttr list
   \<Rightarrow> failure + ((heap \<times> binStringPool) \<times> element list \<times> (int \<rightharpoonup> element) \<times> binAttr list)" where
  "attr_loop ln d [] st = Inr st"
| "attr_loop ln d (a # as) st =
     (case st of (hp0, els, nse, attr) \<Rightarrow>
        if Space (Name a) = ''xmlns'' then
          (case get (Local (Name a)) hp0 of Inl pn \<Rightarrow> Inl (Panicked pn) | Inr (pre, h1, p1) \<Rightarrow>
           case get (Value a) (h1, p1) of Inl pn \<Rightarrow> Inl (Panicked pn) | Inr (u, h2, p2) \<Rightarrow>
           case get (Local (Name a)) (h2, p2) of Inl pn \<Rightarrow> Inl (Panicked pn) | Inr (pre', h3, p3) \<Rightarrow>
           case get (Value a) (h3, p3) of Inl pn \<Rightarrow> Inl (Panicked pn) | Inr (u', h4, p4) \<Rightarrow>
             attr_loop ln d as
               ((h4, p4), els @ [BinStartNamspace ln pre u], nse(d \<mapsto> BinEndNamspace ln pre' u'), attr))
        else
          (case getAttr a hp0 of
             Inl pn \<Rightarrow> Inl (Panicked pn)
           | Inr (Inl err, h1, p1) \<Rightarrow> Inl (Returned (Errorf_line_local ln (Local (Name a)) err))
           | Inr (Inr ba, h1, p1) \<Rightarrow> attr_loop ln d as ((h1, p1), els, nse, attr @ [ba])))"

text \<open>The loop over the tokens, up to the call of \<^verbatim>\<open>Token\<close> that returns an error.\<close>

fun token_loop :: "decoder_step list \<Rightarrow> enc_state \<Rightarrow> failure + enc_state" where
  "token_loop [] st = Inr st"
| "token_loop (sp # sps) st =
     (let ln = line (lr st) (offset_before sp);
          st = st\<lparr>lr := foldl Read (lr st) (chunks_read sp)\<rparr>
      in case token sp of
           StartElement nm attrs \<Rightarrow>
             (case attr_loop ln (depth st) attrs (pool st, elements st, namespaceEnds st, []) of
                Inl f \<Rightarrow> Inl f
              | Inr (hp1, els, nse, attr) \<Rightarrow>
                  (case get (Space nm) hp1 of Inl pn \<Rightarrow> Inl (Panicked pn) | Inr (r1, h2, p2) \<Rightarrow>
                   case get (Local nm) (h2, p2) of Inl pn \<Rightarrow> Inl (Panicked pn) | Inr (r2, h3, p3) \<Rightarrow>
                     token_loop sps
                       (st\<lparr>pool := (h3, p3), depth := depth st + 1,
                           elements := els @ [BinStartElement ln r1 r2 attr],
                           namespaceEnds := nse\<rparr>)))
         | EndElement nm \<Rightarrow>
             (case get (Space nm) (pool st) of Inl pn \<Rightarrow> Inl (Panicked pn) | Inr (r1, h2, p2) \<Rightarrow>
              case get (Local nm) (h2, p2) of Inl pn \<Rightarrow> Inl (Panicked pn) | Inr (r2, h3, p3) \<Rightarrow>
                let els = elements st @ [BinEndElement ln r1 r2 []];
                    d = depth st - 1
                in (case namespaceEnds st d of
                      Some nsEnd \<Rightarrow>
                        token_loop sps
                          (st\<lparr>pool := (h3, p3), depth := d, elements := els @ [nsEnd],
                              namespaceEnds := (namespaceEnds st)(d := None)\<rparr>)
                    | None \<Rightarrow>
                        token_loop sps (st\<lparr>pool := (h3, p3), depth := d, elements := els\<rparr>)))
         | CharData cd \<Rightarrow>
             (let v = TrimSpace cd in
              if v = [] then token_loop sps st
              else (case get ([CHR 0x09] @ v @ [CHR 0x0A]) (pool st) of
                      Inl pn \<Rightarrow> Inl (Panicked pn)
                    | Inr (r, h1, p1) \<Rightarrow> token_loop sps (st\<lparr>pool := (h1, p1)\<rparr>)))
         | Comment c \<Rightarrow> token_loop sps st
         | ProcInst target inst \<Rightarrow> token_loop sps st
         | Directive dv \<Rightarrow> token_loop sps st)"

definition init_state :: enc_state where
  "init_state = \<lparr>lr = new_lineReader, pool = ([], new_binStringPool), depth = 0,
                  elements = [], namespaceEnds = Map.empty\<rparr>"

text \<open>
  \<^verbatim>\<open>binaryXML\<close>: after the loop the pool is sorted, and the header and the pool are
  appended to the empty slice, which is returned.
\<close>

definition serialize :: "enc_state \<Rightarrow> byte list" where
  "serialize st =
     (let (h, p) = sortPool (pool st);
          sz = 8 + pool_size h p;
          b = [];
          b = appendHeader b headerXML sz;
          b = pool_append h p b
      in b)"

definition binaryXML :: "decoder_step list \<Rightarrow> decoder_end \<Rightarrow> failure + byte list" where
  "binaryXML steps fin =
     (case token_loop steps init_state of
        Inl f \<Rightarrow> Inl f
      | Inr st \<Rightarrow>
          (case fin of
             Failed msg \<Rightarrow> Inl (Returned (DecoderError msg))
           | EOF \<Rightarrow> Inr (serialize st)))"

section \<open>The APK writer (writer.go)\<close>

text \<open>
  The state of a \<^verbatim>\<open>Writer\<close>: of the \<^verbatim>\<open>zip.Writer\<close> it embeds, the files written so far
  and whether the central directory and its end record have been written and flushed; the
  manifest entries; the current entry.  A \<^verbatim>\<open>hash.Hash\<close> is the bytes hashed so far.
\<close>

record manifestEntry =
  entry_name :: string
  entry_sha1 :: "byte list"

record zip_Writer =
  zip_files :: "(string \<times> byte list) list"
  zip_closed :: bool

record Writer =
  zip_w :: zip_Writer
  manifest :: "manifestEntry list"
  cur_path :: string
  cur_w :: bool
  cur_sha1 :: "byte list"

text \<open>\<^verbatim>\<open>Create\<close> returns \<^verbatim>\<open>nil, nil\<close>; \<^verbatim>\<open>Close\<close> returns \<^verbatim>\<open>nil\<close>; neither touches the writer.\<close>

definition Create :: "Writer \<Rightarrow> string \<Rightarrow> Writer \<times> unit option \<times> go_error option" where
  "Create w nm = (w, None, None)"

definition Close :: "Writer \<Rightarrow> Writer \<times> go_error option" where
  "Close w = (w, None)"

definition zero_Writer :: Writer where
  "zero_Writer = \<lparr>zip_w = \<lparr>zip_files = [], zip_closed = False\<rparr>, manifest = [],
                   cur_path = [], cur_w = False, cur_sha1 = []\<rparr>"

section \<open>Notions used in the properties\<close>

text \<open>The offsets of the newline bytes of a string, in increasing order.\<close>

definition nl_positions :: "string \<Rightarrow> nat list" where
  "nl_positions raw = filter (\<lambda>i. raw ! i = CHR 0x0A) [0..<length raw]"

text \<open>
  What \<^verbatim>\<open>Swap\<close> and the inner loop of the insertion sort do to the list of the pool's
  strings; the proofs relate the pool to them.
\<close>

definition swap_list :: "nat \<Rightarrow> nat \<Rightarrow> 'a list \<Rightarrow> 'a list" where
  "swap_list i j xs = xs[i := xs ! j, j := xs ! i]"

fun sift_list :: "nat \<Rightarrow> string list \<Rightarrow> string list" where
  "sift_list 0 xs = xs"
| "sift_list (Suc j) xs = (if xs ! Suc j < xs ! j then sift_list j (swap_list (Suc j) j xs) else xs)"

text \<open>
  The invariant of the pool that the sort needs: the pointers of the slice are distinct and
  valid, and every object holds the index of its position.  The invariant of the whole pool
  adds that the map and the slice hold the same entries under their strings.
\<close>

definition sort_inv :: "heap \<times> binStringPool \<Rightarrow> bool" where
  "sort_inv hp =
     (distinct (pool_s (snd hp))
      \<and> (\<forall>a \<in> set (pool_s (snd hp)). a < length (fst hp))
      \<and> (\<forall>k < length (pool_s (snd hp)). ind (fst hp ! (pool_s (snd hp) ! k)) = of_nat k))"

definition pool_inv :: "heap \<times> binStringPool \<Rightarrow> bool" where
  "pool_inv hp =
     (sort_inv hp
      \<and> (\<forall>st a. pool_m (snd hp) st = Some a \<longrightarrow> a \<in> set (pool_s (snd hp)) \<and> str (fst hp ! a) = st)
      \<and> (\<forall>a \<in> set (pool_s (snd hp)). pool_m (snd hp) (str (fst hp ! a)) = Some a))"

text \<open>
  \<^verbatim>\<open>strings.Join\<close> with a separator of one byte: the pieces with the separator between
  them.  Splitting at every separator is its inverse on pieces that hold no separator.
\<close>

fun Join :: "string list \<Rightarrow> char \<Rightarrow> string" where
  "Join [] sep = []"
| "Join [p] sep = p"
| "Join (p # q # ps) sep = p @ sep # Join (q # ps) sep"

text \<open>
  No string of the pool's map has 65536 bytes or more: \<^verbatim>\<open>get\<close> panics on such a
  string, and nothing recovers the panic, so no pool that is used afterwards holds one.
\<close>

definition short_keys :: "heap \<times> binStringPool \<Rightarrow> bool" where
  "short_keys hp = (\<forall>s a. pool_m (snd hp) s = Some a \<longrightarrow> length s < 65536)"

section \<open>Inputs used in the properties\<close>

text \<open>The label of the fixture's manifest: \<^verbatim>\<open>Balloon\<close> and two CJK characters, in UTF-8.\<close>

definition balloon :: string where
  "balloon = ''Balloon'' @ [CHR 0xE4, CHR 0xB8, CHR 0x96, CHR 0xE7, CHR 0x95, CHR 0x8C]"

text \<open>
  A run of the decoder on the five bytes \<^verbatim>\<open><a/>\<close> and a newline, read in one chunk: the
  start of the self-closing element, its end, for which the decoder consumes nothing, and
  the newline as character data.
\<close>

definition self_closing :: "decoder_step list" where
  "self_closing =
     [\<lparr>offset_before = 0, chunks_read = [''<a/>'' @ [CHR 0x0A]],
       token = StartElement \<lparr>Space = [], Local = ''a''\<rparr> []\<rparr>,
      \<lparr>offset_before = 4, chunks_read = [], token = EndElement \<lparr>Space = [], Local = ''a''\<rparr>\<rparr>,
      \<lparr>offset_before = 4, chunks_read = [], token = CharData [CHR 0x0A]\<rparr>]"

text \<open>A string of \<open>n\<close> times the CJK character U+4E16, three bytes each in UTF-8.\<close>

definition cjk_string :: "nat \<Rightarrow> string" where
  "cjk_string n = concat (replicate n [CHR 0xE4, CHR 0xB8, CHR 0x96])"

text \<open>Four strings to intern, one of them twice.\<close>

definition four_names :: "string list" where
  "four_names = [''b'', ''a'', ''c'', ''a'']"

section \<open>Properties of the byte helpers and the chunk headers\<close>

lemma length_appendU16: "length (appendU16 b v) = length b + 2"
  by (simp add: appendU16_def)

lemma length_appendU32: "length (appendU32 b v) = length b + 4"
  by (simp add: appendU32_def)

lemma uint_u16_bytes:
  "uint (ucast (v :: u16) :: byte) + 256 * uint (ucast (drop_bit 8 v) :: byte) = uint v"
proof -
  have a: "uint (ucast v :: byte) = uint v mod 256"
    by (simp add: take_bit_eq_mod unsigned_ucast_eq)
  have b: "uint (ucast (drop_bit 8 v) :: byte) = uint v div 256"
  proof -
    have "uint v < 65536" using uint_lt2p [of v] by simp
    then have "uint v div 256 < 256" by simp
    moreover have "0 \<le> uint v div 256"
      using uint_ge_0 [of v] by (simp add: div_int_pos_iff)
    ultimately show ?thesis
      by (simp add: unsigned_ucast_eq drop_bit_eq_div take_bit_eq_mod uint_div_distrib)
  qed
  show ?thesis unfolding a b by simp
qed

lemma appendHeader_eq:
  "appendHeader b typ sz =
     b @ [ucast typ, ucast (drop_bit 8 typ), 8, 0,
          ucast (word_of_int sz :: u16), ucast (drop_bit 8 (word_of_int sz :: u16)), 0, 0]"
  by (simp add: appendHeader_def appendU16_def)

lemma readU32_size_field:
  "readU32 (b @ t0 # t1 # t2 # t3 # ucast (w :: u16) # ucast (drop_bit 8 w) # 0 # 0 # rest) (length b + 4) = uint w"
proof -
  have "readU32 (b @ t0 # t1 # t2 # t3 # ucast w # ucast (drop_bit 8 w) # 0 # 0 # rest) (length b + 4)
        = uint (ucast w :: byte) + 256 * uint (ucast (drop_bit 8 w) :: byte)"
    by (simp add: readU32_def nth_append)
  then show ?thesis by (simp add: uint_u16_bytes)
qed

lemma uint_word_of_int_16: "uint (word_of_int sz :: u16) = sz mod 65536"
  by (simp add: uint_word_of_int)

lemma readU32_appendHeader: "readU32 (appendHeader b typ sz) (length b + 4) = sz mod 65536"
  unfolding appendHeader_eq using readU32_size_field [of b _ _ _ _ "word_of_int sz" "[]"]
  by (simp add: uint_word_of_int_16)


lemma offsets_step_app: "offsets_step h (b, k) a = (b @ fst (offsets_step h ([], k) a), snd (offsets_step h ([], k) a))"
  by (simp add: offsets_step_def appendU32_def)

lemma foldl_offsets_pair:
  "foldl (offsets_step h) (b, k) xs
   = (b @ fst (foldl (offsets_step h) ([], k) xs), snd (foldl (offsets_step h) ([], k) xs))"
proof (induction xs arbitrary: b k)
  case Nil
  then show ?case by simp
next
  case (Cons x xs)
  obtain c k' where c: "offsets_step h ([], k) x = (c, k')"
    by (cases "offsets_step h ([], k) x")
  have 1: "foldl (offsets_step h) (b, k) (x # xs) = foldl (offsets_step h) (b @ c, k') xs"
    using offsets_step_app [of h b k x] c by simp
  have 2: "foldl (offsets_step h) ([], k) (x # xs) = foldl (offsets_step h) (c, k') xs"
    using c by simp
  have 3: "foldl (offsets_step h) (b @ c, k') xs
           = ((b @ c) @ fst (foldl (offsets_step h) ([], k') xs), snd (foldl (offsets_step h) ([], k') xs))"
    by (rule Cons.IH)
  have 4: "foldl (offsets_step h) (c, k') xs
           = (c @ fst (foldl (offsets_step h) ([], k') xs), snd (foldl (offsets_step h) ([], k') xs))"
    by (rule Cons.IH)
  show ?case
    unfolding 1 2 3 4 by simp
qed

lemma foldl_offsets_length:
  "length (fst (foldl (offsets_step h) (b, k) xs)) = length b + 4 * length xs"
proof (induction xs arbitrary: b k)
  case Nil
  then show ?case by simp
next
  case (Cons x xs)
  have "offsets_step h (b, k) x = (appendU32 b (word_of_int k), k + int (length (enc (h ! x))))"
    by (simp add: offsets_step_def)
  then show ?case
    by (simp add: Cons.IH length_appendU32)
qed

lemma foldl_encs: "foldl (\<lambda>b a. b @ enc (h ! a)) b xs = b @ concat (map (\<lambda>a. enc (h ! a)) xs)"
  by (induction xs arbitrary: b) simp_all

lemma foldl_strLens:
  "foldl (\<lambda>acc a. acc + int (length (enc (h ! a)))) acc xs = acc + int (length (concat (map (\<lambda>a. enc (h ! a)) xs)))"
  by (induction xs arbitrary: acc) simp_all

lemma pool_append_eq:
  "pool_append h p b =
     b @ [ucast headerStringPool, ucast (drop_bit 8 headerStringPool), 0x1c, 0,
          ucast (word_of_int (pool_size h p) :: u16), ucast (drop_bit 8 (word_of_int (pool_size h p) :: u16)), 0, 0]
       @ appendU32 (appendU32 (appendU32 (appendU32 (appendU32 [] (of_nat (length (pool_s p)))) 0) 0)
            (word_of_int (stringPoolPreamble + 4 * int (length (pool_s p))))) 0
       @ pool_offsets h (pool_s p)
       @ concat (map (\<lambda>a. enc (h ! a)) (pool_s p))
       @ [0, 0]"
proof -
  have f: "fst (foldl (offsets_step h) (b0, 0) xs) = b0 @ pool_offsets h xs" for b0 xs
    unfolding pool_offsets_def by (subst foldl_offsets_pair) simp
  have "pool_append h p b =
     appendU16 ((appendU32 (appendU32 (appendU32 (appendU32 (appendU32
        (appendU16 (appendU16 (appendU16 (appendU16 b headerStringPool) 0x1c) (word_of_int (pool_size h p))) 0)
        (of_nat (length (pool_s p)))) 0) 0) (word_of_int (stringPoolPreamble + 4 * int (length (pool_s p))))) 0)
       @ pool_offsets h (pool_s p) @ concat (map (\<lambda>a. enc (h ! a)) (pool_s p))) 0"
    by (simp only: pool_append_def Let_def split_beta f foldl_encs append_assoc)
  then show ?thesis
    by (simp add: appendU16_def appendU32_def)
qed

lemma length_pool_append: "int (length (pool_append h p b)) = int (length b) + pool_size h p"
  unfolding pool_append_eq
  by (simp add: pool_offsets_def foldl_offsets_length pool_size_def foldl_strLens
      stringPoolPreamble_def appendU32_def)

lemma readU32_pool_append: "readU32 (pool_append h p b) (length b + 4) = pool_size h p mod 65536"
  unfolding pool_append_eq
  using readU32_size_field [of b _ _ _ _ "word_of_int (pool_size h p)"]
  by (simp add: uint_word_of_int_16)

lemma size_field_bytes_appendHeader:
  "take 4 (drop (length b + 4) (appendHeader b typ sz)) = appendU16 (appendU16 [] (word_of_int (sz mod 65536))) 0"
proof -
  have "(word_of_int (sz mod 65536) :: u16) = word_of_int sz"
    by (simp add: word_uint_eq_iff uint_word_of_int)
  then show ?thesis by (simp add: appendHeader_eq appendU16_def)
qed

lemma size_field_bytes_pool_append:
  "take 4 (drop (length b + 4) (pool_append h p b)) = appendU16 (appendU16 [] (word_of_int (pool_size h p mod 65536))) 0"
proof -
  have "(word_of_int (pool_size h p mod 65536) :: u16) = word_of_int (pool_size h p)"
    by (simp add: word_uint_eq_iff uint_word_of_int)
  then show ?thesis by (simp add: pool_append_eq appendU16_def)
qed

lemma pool_size_nonneg: "0 \<le> pool_size h p"
  by (simp add: pool_size_def foldl_strLens stringPoolPreamble_def)

section \<open>Properties of the string pool\<close>

lemma drop_bit_16_pos: "(drop_bit 16 (n :: nat) > 0) = (65536 \<le> n)"
  by (simp add: drop_bit_eq_div div_greater_zero_iff)

lemma get_old: "pool_m p st = Some r \<Longrightarrow> get st (h, p) = Inr (r, h, p)"
  by (simp add: get_def)

lemma get_new:
  "pool_m p st = None \<Longrightarrow> length st < 65536 \<Longrightarrow>
   get st (h, p) = Inr (length h,
     h @ [\<lparr>ind = of_nat (length (pool_s p)), str = st, enc = encode_bstring st\<rparr>],
     p\<lparr>pool_s := pool_s p @ [length h], pool_m := (pool_m p)(st \<mapsto> length h)\<rparr>)"
  by (simp add: get_def drop_bit_16_pos Let_def)

lemma get_panic:
  "pool_m p st = None \<Longrightarrow> 65536 \<le> length st \<Longrightarrow>
   get st (h, p) = Inl (StringTooLong (length st) (take 100 st))"
  by (simp add: get_def drop_bit_16_pos Let_def)

lemma get_short:
  assumes "length st < 65536"
  shows "\<exists>r h' p'. get st (h, p) = Inr (r, h', p') \<and> pool_m p' st = Some r"
proof (cases "pool_m p st")
  case None
  then show ?thesis using assms by (simp add: get_new)
next
  case (Some r)
  then show ?thesis by (simp add: get_old)
qed

lemma get_Inl_iff:
  "(get st (h, p) = Inl pn) = (pool_m p st = None \<and> 65536 \<le> length st \<and> pn = StringTooLong (length st) (take 100 st))"
  by (cases "pool_m p st") (auto simp: get_def drop_bit_16_pos Let_def)

lemma foldl_appendU16: "foldl appendU16 b ws = b @ concat (map (appendU16 []) ws)"
  by (induction ws arbitrary: b) (simp_all add: appendU16_def)

lemma encode_bstring_eq:
  "encode_bstring st = appendU16 [] (of_nat (length st))
      @ concat (map (appendU16 []) (utf16_Encode (runes st))) @ appendU16 [] 0"
  unfolding encode_bstring_def Let_def foldl_appendU16 by (simp add: appendU16_def)

lemma runes_balloon: "runes balloon = [0x42, 0x61, 0x6c, 0x6c, 0x6f, 0x6f, 0x6e, 0x4e16, 0x754c]"
  by (simp add: balloon_def DecodeRuneInString_def rune_size_def accept_lo_def accept_hi_def cont_byte_def Let_def)

lemma utf16_balloon: "utf16_Encode (runes balloon) = [0x42, 0x61, 0x6c, 0x6c, 0x6f, 0x6f, 0x6e, 0x4e16, 0x754c]"
  by (simp add: runes_balloon utf16_Encode_def EncodeRune_def)

text \<open>
  Claim C2.  The encoding of an interned string is a 16-bit length, the UTF-16 code units
  and a 16-bit zero, but the length written is the number of bytes of the string, not the
  number of code units: for the fixture's label \<^verbatim>\<open>get\<close> writes 0x000d in front of
  the nine code units, where the fixture has 0x0009.
\<close>

theorem length_field_counts_bytes:
  "encode_bstring st = appendU16 [] (of_nat (length st))
      @ concat (map (appendU16 []) (utf16_Encode (runes st))) @ appendU16 [] 0
   \<and> length balloon = 13
   \<and> utf16_Encode (runes balloon) = [0x42, 0x61, 0x6c, 0x6c, 0x6f, 0x6f, 0x6e, 0x4e16, 0x754c]
   \<and> get balloon ([], new_binStringPool)
       = Inr (0, [\<lparr>ind = 0, str = balloon,
                   enc = [0x0d, 0x00, 0x42, 0, 0x61, 0, 0x6c, 0, 0x6c, 0, 0x6f, 0, 0x6f, 0, 0x6e, 0,
                          0x16, 0x4e, 0x4c, 0x75, 0, 0]\<rparr>],
              \<lparr>pool_s = [0], pool_m = [balloon \<mapsto> 0]\<rparr>)"
proof -
  have l: "length balloon = 13" by (simp add: balloon_def)
  have e: "encode_bstring balloon = [0x0d, 0x00, 0x42, 0, 0x61, 0, 0x6c, 0, 0x6c, 0, 0x6f, 0, 0x6f, 0, 0x6e, 0,
                          0x16, 0x4e, 0x4c, 0x75, 0, 0]"
    unfolding encode_bstring_eq utf16_balloon l by (simp add: appendU16_def)
  have g: "get balloon ([], new_binStringPool)
       = Inr (0, [\<lparr>ind = 0, str = balloon, enc = encode_bstring balloon\<rparr>],
              \<lparr>pool_s = [0], pool_m = [balloon \<mapsto> 0]\<rparr>)"
    by (subst get_new) (simp_all add: new_binStringPool_def l)
  show ?thesis
    using encode_bstring_eq [of st] l utf16_balloon g e by simp
qed


lemma Decode_ascii: "(of_char c :: nat) < 0x80 \<Longrightarrow> DecodeRuneInString (c # cs) = (int (of_char c), 1)"
  by (simp add: DecodeRuneInString_def rune_size_def)

lemma Decode_width:
  "DecodeRuneInString (c # cs) = (r, n) \<Longrightarrow> 1 \<le> n \<and> n \<le> Suc (length cs) \<and> length (EncodeRune r) \<le> n"
  unfolding DecodeRuneInString_def Let_def
  by (auto simp: rune_size_def RuneError_def EncodeRune_def Suc_le_eq split: if_splits)

lemma length_utf16_Cons: "length (utf16_Encode (r # rs)) = length (EncodeRune r) + length (utf16_Encode rs)"
  by (simp add: utf16_Encode_def)

lemma units_le_bytes: "length (utf16_Encode (runes st)) \<le> length st"
proof (induction st rule: runes.induct)
  case 1
  then show ?case by (simp add: utf16_Encode_def)
next
  case (2 c cs)
  obtain r n where d: "DecodeRuneInString (c # cs) = (r, n)"
    by (cases "DecodeRuneInString (c # cs)")
  from Decode_width [OF d] have w: "1 \<le> n" "n \<le> Suc (length cs)" "length (EncodeRune r) \<le> n"
    by simp_all
  have "length (utf16_Encode (runes (drop (n - 1) cs))) \<le> length (drop (n - 1) cs)"
    using "2.IH" [OF d [symmetric] refl] .
  then show ?case
    using w d by (simp add: length_utf16_Cons)
qed

lemma runes_replicate_a: "runes (replicate n CHR ''a'') = replicate n 97"
  by (induction n) (simp_all add: Decode_ascii)

lemma utf16_replicate_a: "utf16_Encode (replicate n 97) = replicate n 97"
  by (induction n) (simp_all add: utf16_Encode_def EncodeRune_def)

section \<open>Properties of the attribute classification\<close>

lemma get_ns_name:
  assumes "length sp < 65536" "length lo < 65536"
  shows "\<exists>r1 h1 p1 r2 h2 p2. get sp (h, p) = Inr (r1, h1, p1) \<and> get lo (h1, p1) = Inr (r2, h2, p2)"
proof -
  obtain r1 h1 p1 where 1: "get sp (h, p) = Inr (r1, h1, p1)"
    using get_short [OF assms(1)] by blast
  obtain r2 h2 p2 where 2: "get lo (h1, p1) = Inr (r2, h2, p2)"
    using get_short [OF assms(2)] by blast
  show ?thesis using 1 2 by blast
qed

lemma length_android_ns: "length android_ns = 42"
  by (simp add: android_ns_def)

lemma foldl_or_unknown:
  "foldl (\<lambda>v c. v OR configChanges_at c) w toks
   = foldl (\<lambda>v c. v OR configChanges_at c) w (filter (\<lambda>c. configChanges c \<noteq> None) toks)"
proof (induction toks arbitrary: w)
  case Nil
  then show ?case by simp
next
  case (Cons c toks)
  show ?case
  proof (cases "configChanges c")
    case None
    then have "configChanges_at c = 0" by (simp add: configChanges_at_def)
    then show ?thesis using None Cons.IH [of w] by simp
  next
    case (Some x)
    then show ?thesis using Cons.IH [of "w OR configChanges_at c"] by simp
  qed
qed

lemma getAttr_configChanges:
  "\<exists>r1 r2 h' p'. getAttr \<lparr>Name = \<lparr>Space = android_ns, Local = ''configChanges''\<rparr>, Value = v\<rparr> (h, p)
       = Inr (Inr \<lparr>ns = r1, name = r2,
                   data = DU32 (foldl (\<lambda>w c. w OR configChanges_at c) 0 (Split v CHR ''|''))\<rparr>, h', p')"
proof -
  obtain r1 h1 p1 r2 h2 p2 where
    g: "get android_ns (h, p) = Inr (r1, h1, p1)" "get ''configChanges'' (h1, p1) = Inr (r2, h2, p2)"
    using get_ns_name [of android_ns "''configChanges''" h p] by (auto simp: length_android_ns)
  show ?thesis
    by (simp add: getAttr_def g)
qed

lemma Split_not_Nil: "Split v sep \<noteq> []"
  by (induction v) (auto split: list.splits)

lemma Split_no_sep: "piece \<in> set (Split v sep) \<Longrightarrow> sep \<notin> set piece"
  by (induction v arbitrary: piece) (auto split: if_splits list.splits)

lemma Join_Cons_Cons: "Join ((c # p) # ps) sep = c # Join (p # ps) sep"
  by (cases ps) simp_all

lemma Join_Split: "Join (Split v sep) sep = v"
proof (induction v)
  case Nil
  then show ?case by simp
next
  case (Cons c cs)
  obtain p ps where s: "Split cs sep = p # ps"
    using Split_not_Nil [of cs sep] by (cases "Split cs sep") auto
  show ?case
    using Cons.IH by (simp add: s Join_Cons_Cons)
qed

lemma Split_sep_free: "sep \<notin> set p \<Longrightarrow> Split p sep = [p]"
  by (induction p) auto

lemma Split_append_sep: "sep \<notin> set p \<Longrightarrow> Split (p @ sep # rest) sep = p # Split rest sep"
  by (induction p) auto

lemma Split_Join:
  "ps \<noteq> [] \<Longrightarrow> \<forall>p \<in> set ps. sep \<notin> set p \<Longrightarrow> Split (Join ps sep) sep = ps"
proof (induction ps sep rule: Join.induct)
  case (1 sep)
  then show ?case by simp
next
  case (2 p sep)
  then show ?case by (simp add: Split_sep_free)
next
  case (3 p q ps sep)
  then show ?case by (simp add: Split_append_sep)
qed

lemma bit_foldl_or:
  "bit (foldl (\<lambda>w c. w OR f c) (w0 :: u32) toks) i = (bit w0 i \<or> (\<exists>t \<in> set toks. bit (f t) i))"
  by (induction toks arbitrary: w0) (auto simp: bit_or_iff)

lemma configChanges_at_table:
  "configChanges_at c =
     (if c = ''mcc'' then 0x0001 else if c = ''mnc'' then 0x0002
      else if c = ''locale'' then 0x0004 else if c = ''touchscreen'' then 0x0008
      else if c = ''keyboard'' then 0x0010 else if c = ''keyboardHidden'' then 0x0020
      else if c = ''navigation'' then 0x0040 else if c = ''orientation'' then 0x0080
      else if c = ''screenLayout'' then 0x0100 else if c = ''uiMode'' then 0x0200
      else if c = ''screenSize'' then 0x0400 else if c = ''smallestScreenSize'' then 0x0800
      else if c = ''layoutDirection'' then 0x2000 else if c = ''fontScale'' then 0x40000000
      else 0)"
  by (simp add: configChanges_at_def configChanges_def)

lemma Split_orientation_nonsense:
  "Split ''orientation|nonsense'' CHR ''|'' = [''orientation'', ''nonsense'']"
  by simp

text \<open>
  Claim C7.  For an \<^verbatim>\<open>android:configChanges\<close> attribute \<^verbatim>\<open>getAttr\<close> always returns,
  without error or panic, a \<^verbatim>\<open>uint32\<close>: the bitwise OR, over the pieces of the value
  between the pipes, of the entries of the flag table, so that a bit is set in it exactly
  when it is set in the entry of some piece.  The pieces are those of the value split at
  every pipe: there is at least one, none holds a pipe, joined with pipes they give the
  value back, and pieces without a pipe joined with pipes are split into themselves.  The
  table has the fourteen entries of the source; a piece that is not in the table counts 0,
  so leaving the unknown pieces out gives the same value.
  \<^verbatim>\<open>orientation|nonsense\<close> gives 0x00000080.
\<close>

theorem configChanges_is_or_of_known_flags:
  "(\<exists>r1 r2 h' p' w. getAttr \<lparr>Name = \<lparr>Space = android_ns, Local = ''configChanges''\<rparr>, Value = v\<rparr> (h, p)
       = Inr (Inr \<lparr>ns = r1, name = r2, data = DU32 w\<rparr>, h', p')
       \<and> w = foldl (\<lambda>w c. w OR configChanges_at c) 0 (Split v CHR ''|'')
       \<and> (\<forall>i. bit w i = (\<exists>t \<in> set (Split v CHR ''|''). bit (configChanges_at t) i)))
   \<and> Split v CHR ''|'' \<noteq> []
   \<and> (\<forall>t \<in> set (Split v CHR ''|''). CHR ''|'' \<notin> set t)
   \<and> Join (Split v CHR ''|'') CHR ''|'' = v
   \<and> (toks \<noteq> [] \<and> (\<forall>t \<in> set toks. CHR ''|'' \<notin> set t)
        \<longrightarrow> Split (Join toks CHR ''|'') CHR ''|'' = toks)
   \<and> configChanges_at c =
       (if c = ''mcc'' then 0x0001 else if c = ''mnc'' then 0x0002
        else if c = ''locale'' then 0x0004 else if c = ''touchscreen'' then 0x0008
        else if c = ''keyboard'' then 0x0010 else if c = ''keyboardHidden'' then 0x0020
        else if c = ''navigation'' then 0x0040 else if c = ''orientation'' then 0x0080
        else if c = ''screenLayout'' then 0x0100 else if c = ''uiMode'' then 0x0200
        else if c = ''screenSize'' then 0x0400 else if c = ''smallestScreenSize'' then 0x0800
        else if c = ''layoutDirection'' then 0x2000 else if c = ''fontScale'' then 0x40000000
        else 0)
   \<and> foldl (\<lambda>w c. w OR configChanges_at c) 0 toks
       = foldl (\<lambda>w c. w OR configChanges_at c) 0 (filter (\<lambda>c. configChanges c \<noteq> None) toks)
   \<and> (\<exists>r1 r2 h' p'. getAttr \<lparr>Name = \<lparr>Space = android_ns, Local = ''configChanges''\<rparr>,
                               Value = ''orientation|nonsense''\<rparr> (h, p)
         = Inr (Inr \<lparr>ns = r1, name = r2, data = DU32 0x00000080\<rparr>, h', p'))"
proof -
  have 1: "\<exists>r1 r2 h' p' w. getAttr \<lparr>Name = \<lparr>Space = android_ns, Local = ''configChanges''\<rparr>, Value = v\<rparr> (h, p)
       = Inr (Inr \<lparr>ns = r1, name = r2, data = DU32 w\<rparr>, h', p')
       \<and> w = foldl (\<lambda>w c. w OR configChanges_at c) 0 (Split v CHR ''|'')
       \<and> (\<forall>i. bit w i = (\<exists>t \<in> set (Split v CHR ''|''). bit (configChanges_at t) i))"
    using getAttr_configChanges [of v h p] by (auto simp: bit_foldl_or)
  have 2: "\<forall>t \<in> set (Split v CHR ''|''). CHR ''|'' \<notin> set t"
    using Split_no_sep by blast
  have 3: "toks \<noteq> [] \<and> (\<forall>t \<in> set toks. CHR ''|'' \<notin> set t)
        \<longrightarrow> Split (Join toks CHR ''|'') CHR ''|'' = toks"
    using Split_Join by blast
  have "foldl (\<lambda>w c. w OR configChanges_at c) 0 (Split ''orientation|nonsense'' CHR ''|'') = 0x80"
    unfolding Split_orientation_nonsense by (simp add: configChanges_at_table)
  then have 4: "\<exists>r1 r2 h' p'. getAttr \<lparr>Name = \<lparr>Space = android_ns, Local = ''configChanges''\<rparr>,
                               Value = ''orientation|nonsense''\<rparr> (h, p)
         = Inr (Inr \<lparr>ns = r1, name = r2, data = DU32 0x00000080\<rparr>, h', p')"
    using getAttr_configChanges [of "''orientation|nonsense''" h p] by simp
  show ?thesis
    using 1 2 3 4 Split_not_Nil [of v "CHR ''|''"] Join_Split [of v "CHR ''|''"]
      configChanges_at_table [of c] foldl_or_unknown [of 0 toks]
    by blast
qed

text \<open>
  The fixture's value \<^verbatim>\<open>orientation|keyboardHidden\<close> gives 0xa0, and its two pieces
  joined with a pipe are split into the two pieces.
\<close>

theorem configChanges_is_or_of_known_flags_witness:
  "(\<exists>r1 r2 h' p'. getAttr \<lparr>Name = \<lparr>Space = android_ns, Local = ''configChanges''\<rparr>,
                             Value = ''orientation|keyboardHidden''\<rparr> ([], new_binStringPool)
       = Inr (Inr \<lparr>ns = r1, name = r2, data = DU32 0xa0\<rparr>, h', p'))
   \<and> Split (Join [''orientation'', ''keyboardHidden''] CHR ''|'') CHR ''|''
       = [''orientation'', ''keyboardHidden'']
   \<and> CHR ''|'' \<notin> set (hd (Split ''orientation|keyboardHidden'' CHR ''|''))"
proof -
  note th = configChanges_is_or_of_known_flags [where v = "''orientation|keyboardHidden''" and h = "[]"
        and p = new_binStringPool and c = "[]" and toks = "[''orientation'', ''keyboardHidden'']"]
  have s: "Split ''orientation|keyboardHidden'' CHR ''|'' = [''orientation'', ''keyboardHidden'']"
    by simp
  have "configChanges_at ''orientation'' = 0x80" "configChanges_at ''keyboardHidden'' = 0x20"
    by (simp_all add: configChanges_at_def configChanges_def)
  then have 1: "\<exists>r1 r2 h' p'. getAttr \<lparr>Name = \<lparr>Space = android_ns, Local = ''configChanges''\<rparr>,
                             Value = ''orientation|keyboardHidden''\<rparr> ([], new_binStringPool)
       = Inr (Inr \<lparr>ns = r1, name = r2, data = DU32 0xa0\<rparr>, h', p')"
    using th [THEN conjunct1] unfolding s by auto
  have 2: "Split (Join [''orientation'', ''keyboardHidden''] CHR ''|'') CHR ''|''
       = [''orientation'', ''keyboardHidden'']"
    using th [THEN conjunct2, THEN conjunct2, THEN conjunct2, THEN conjunct2, THEN conjunct1] by simp
  have 3: "CHR ''|'' \<notin> set (hd (Split ''orientation|keyboardHidden'' CHR ''|''))"
    using th [THEN conjunct2, THEN conjunct2, THEN conjunct1] unfolding s by simp
  show ?thesis using 1 2 3 by blast
qed






lemma token_loop_append:
  "token_loop (xs @ ys) st
   = (case token_loop xs st of Inl f \<Rightarrow> Inl f | Inr st' \<Rightarrow> token_loop ys st')"
proof (induction xs arbitrary: st)
  case Nil
  then show ?case by simp
next
  case (Cons sp xs)
  show ?case
    by (simp add: Cons.IH Let_def split: sum.splits prod.splits xml_Token.splits option.splits)
qed






text \<open>
  \<^verbatim>\<open>binAttr.append\<close> is not called: the result of \<^verbatim>\<open>binaryXML\<close> is the header and
  the pool.  For a boolean it writes 21 bytes.  The value size 8 and the padding are both
  written as 16-bit words, so the type byte 0x12 is the seventeenth byte of the record, where
  the format has a record of 20 bytes with the type as its sixteenth byte.
\<close>

lemma binAttr_append_bool:
  "binAttr_append h0 \<lparr>ns = a, name = b, data = DBool bv\<rparr> bs
   = Inr (bs @ appendU32 [] (ind (h0 ! a)) @ appendU32 [] (ind (h0 ! b))
          @ [0xff, 0xff, 0xff, 0xff, 8, 0, 0, 0, 0x12, (if bv then 1 else 0), 0, 0, 0])"
  by (simp add: binAttr_append_def appendU32_def appendU16_def)




lemma getAttr_error_only_typed:
  "getAttr attr (h, p) = Inr (Inl err, h', p') \<Longrightarrow>
   Space (Name attr) = android_ns
   \<and> Local (Name attr) \<in> set [''versionCode'', ''minSdkVersion'', ''hasCode'', ''debuggable'']"
  unfolding getAttr_def Let_def
  by (auto split: sum.splits prod.splits if_splits)

lemma getAttr_other_ns:
  assumes "Space (Name attr) \<noteq> android_ns"
    and "length (Space (Name attr)) < 65536" "length (Local (Name attr)) < 65536"
    and "length (Value attr) < 65536"
  shows "\<exists>r1 r2 r h' p'. getAttr attr (h, p) = Inr (Inr \<lparr>ns = r1, name = r2, data = DStr r\<rparr>, h', p')
           \<and> pool_m p' (Value attr) = Some r"
proof -
  obtain r1 h1 p1 r2 h2 p2 where
    g: "get (Space (Name attr)) (h, p) = Inr (r1, h1, p1)" "get (Local (Name attr)) (h1, p1) = Inr (r2, h2, p2)"
    using get_ns_name [OF assms(2,3)] by blast
  obtain r h3 p3 where g3: "get (Value attr) (h2, p2) = Inr (r, h3, p3)" "pool_m p3 (Value attr) = Some r"
    using get_short [OF assms(4)] by blast
  show ?thesis
    using assms(1) by (simp add: getAttr_def g g3)
qed

text \<open>
  Claim C10, amended.  For an attribute whose namespace is not the Android namespace,
  \<^verbatim>\<open>getAttr\<close> returns a nil error and a string reference to the pool entry of the
  value, provided its namespace, local name and value are each shorter than 65536 bytes
  (otherwise \<^verbatim>\<open>get\<close> may panic).  Whenever \<^verbatim>\<open>getAttr\<close> returns an error, the
  attribute is in the Android namespace and its local name is \<^verbatim>\<open>versionCode\<close>,
  \<^verbatim>\<open>minSdkVersion\<close>, \<^verbatim>\<open>hasCode\<close> or \<^verbatim>\<open>debuggable\<close>.
\<close>

theorem other_namespace_attr_is_string_or_panics:
  "(Space (Name attr) \<noteq> android_ns \<longrightarrow>
      length (Space (Name attr)) < 65536 \<longrightarrow> length (Local (Name attr)) < 65536 \<longrightarrow>
      length (Value attr) < 65536 \<longrightarrow>
      (\<exists>r1 r2 r h' p'. getAttr attr (h, p) = Inr (Inr \<lparr>ns = r1, name = r2, data = DStr r\<rparr>, h', p')
           \<and> pool_m p' (Value attr) = Some r))
   \<and> (\<forall>err h' p'. getAttr attr (h, p) = Inr (Inl err, h', p') \<longrightarrow>
        Space (Name attr) = android_ns
        \<and> Local (Name attr) \<in> set [''versionCode'', ''minSdkVersion'', ''hasCode'', ''debuggable''])"
  using getAttr_other_ns [of attr h p] getAttr_error_only_typed [of attr h p] by blast

text \<open>
  The fixture's \<^verbatim>\<open>package="com.zentus.balloon"\<close> becomes a string reference.
\<close>

theorem other_namespace_attr_is_string_or_panics_witness:
  "\<exists>r1 r2 r h' p'. getAttr \<lparr>Name = \<lparr>Space = [], Local = ''package''\<rparr>, Value = ''com.zentus.balloon''\<rparr>
                      ([], new_binStringPool)
      = Inr (Inr \<lparr>ns = r1, name = r2, data = DStr r\<rparr>, h', p')
      \<and> pool_m p' ''com.zentus.balloon'' = Some r"
  using other_namespace_attr_is_string_or_panics
    [where attr = "\<lparr>Name = \<lparr>Space = [], Local = ''package''\<rparr>, Value = ''com.zentus.balloon''\<rparr>"
      and h = "[]" and p = new_binStringPool, THEN conjunct1]
  by (simp add: android_ns_def)

text \<open>
  Claim C10, as stated, fails: for an attribute without namespace whose value has 65536
  bytes, \<^verbatim>\<open>getAttr\<close> does not return at all, it panics in \<^verbatim>\<open>get\<close>.
\<close>

theorem other_namespace_attr_panics_counterexample:
  "[] \<noteq> android_ns
   \<and> getAttr \<lparr>Name = \<lparr>Space = [], Local = ''package''\<rparr>, Value = replicate 65536 CHR ''x''\<rparr>
        ([], new_binStringPool)
      = Inl (StringTooLong 65536 (replicate 100 CHR ''x''))"
proof -
  have g1: "get [] ([], new_binStringPool)
            = Inr (0, [\<lparr>ind = 0, str = [], enc = encode_bstring []\<rparr>], \<lparr>pool_s = [0], pool_m = [[] \<mapsto> 0]\<rparr>)"
    by (subst get_new) (simp_all add: new_binStringPool_def)
  have g2: "get ''package'' ([\<lparr>ind = 0, str = [], enc = encode_bstring []\<rparr>], \<lparr>pool_s = [0], pool_m = [[] \<mapsto> 0]\<rparr>)
            = Inr (1, [\<lparr>ind = 0, str = [], enc = encode_bstring []\<rparr>,
                       \<lparr>ind = 1, str = ''package'', enc = encode_bstring ''package''\<rparr>],
                   \<lparr>pool_s = [0, 1], pool_m = [[] \<mapsto> 0, ''package'' \<mapsto> 1]\<rparr>)"
    by (subst get_new) simp_all
  have g3: "get (replicate 65536 CHR ''x'')
              ([\<lparr>ind = 0, str = [], enc = encode_bstring []\<rparr>,
                \<lparr>ind = 1, str = ''package'', enc = encode_bstring ''package''\<rparr>],
               \<lparr>pool_s = [0, 1], pool_m = [[] \<mapsto> 0, ''package'' \<mapsto> 1]\<rparr>)
            = Inl (StringTooLong 65536 (replicate 100 CHR ''x''))"
  proof -
    have "length (replicate 65536 CHR ''x'') \<noteq> length ''package''" by simp
    then have "replicate 65536 CHR ''x'' \<noteq> ''package''" by (metis (full_types))
    then show ?thesis by (subst get_panic) simp_all
  qed
  show ?thesis
    using g3 by (simp add: getAttr_def g1 g2 android_ns_def)
qed

section \<open>Properties of too long strings\<close>

lemma short_keys_empty: "short_keys ([], new_binStringPool)"
  by (simp add: short_keys_def new_binStringPool_def)

lemma get_short_keys:
  assumes inv: "short_keys (h, p)" and g: "get s (h, p) = Inr (r, h', p')"
  shows "short_keys (h', p')"
proof (cases "pool_m p s")
  case (Some r0)
  then show ?thesis using g inv by (simp add: get_old)
next
  case None
  have short: "length s < 65536"
    using g None by (cases "length s < 65536") (simp_all add: get_panic)
  have "p' = p\<lparr>pool_s := pool_s p @ [length h], pool_m := (pool_m p)(s \<mapsto> length h)\<rparr>"
    using g by (auto simp: get_new [OF None short])
  then show ?thesis
    using inv short by (auto simp: short_keys_def)
qed

lemma get_long_fresh:
  assumes "short_keys (h, p)" "65536 \<le> length s"
  shows "get s (h, p) = Inl (StringTooLong (length s) (take 100 s))"
proof -
  have "pool_m p s = None"
  proof (cases "pool_m p s")
    case (Some a)
    then have "length s < 65536" using assms(1) by (auto simp: short_keys_def)
    then show ?thesis using assms(2) by simp
  qed simp
  then show ?thesis using assms(2) by (rule get_panic)
qed

lemma getAttr_short_keys:
  assumes inv: "short_keys (h, p)" and g: "getAttr attr (h, p) = Inr (x, h', p')"
  shows "short_keys (h', p')"
proof -
  from g obtain r1 h1 p1 r2 h2 p2 where
    g1: "get (Space (Name attr)) (h, p) = Inr (r1, h1, p1)"
    and g2: "get (Local (Name attr)) (h1, p1) = Inr (r2, h2, p2)"
    and rest: "(h', p') = (h2, p2) \<or> (\<exists>r. get (Value attr) (h2, p2) = Inr (r, h', p'))"
    unfolding getAttr_def Let_def
    by (auto split: sum.splits prod.splits if_splits)
  have i2: "short_keys (h2, p2)"
    using get_short_keys [OF get_short_keys [OF inv g1] g2] .
  from rest show ?thesis
    using i2 get_short_keys [OF i2] by auto
qed

lemma attr_loop_short_keys:
  "short_keys hp0 \<Longrightarrow> attr_loop ln d as (hp0, els, nse, acc) = Inr (hp1, els', nse', acc')
   \<Longrightarrow> short_keys hp1"
proof (induction as arbitrary: hp0 els nse acc)
  case Nil
  then show ?case by simp
next
  case (Cons a as)
  obtain h p where hp0: "hp0 = (h, p)" by (cases hp0)
  show ?case
  proof (cases "Space (Name a) = ''xmlns''")
    case True
    from Cons.prems(2) obtain pre h1 p1 u h2 p2 pre' h3 p3 u' h4 p4 where
      g: "get (Local (Name a)) (h, p) = Inr (pre, h1, p1)"
         "get (Value a) (h1, p1) = Inr (u, h2, p2)"
         "get (Local (Name a)) (h2, p2) = Inr (pre', h3, p3)"
         "get (Value a) (h3, p3) = Inr (u', h4, p4)"
      and rest: "attr_loop ln d as ((h4, p4), els @ [BinStartNamspace ln pre u],
                   nse(d \<mapsto> BinEndNamspace ln pre' u'), acc) = Inr (hp1, els', nse', acc')"
      using True by (auto simp: hp0 split: sum.splits prod.splits)
    have "short_keys (h4, p4)"
      using Cons.prems(1) g hp0 get_short_keys by blast
    then show ?thesis using Cons.IH rest by blast
  next
    case False
    from Cons.prems(2) obtain ba h1 p1 where
      g: "getAttr a (h, p) = Inr (Inr ba, h1, p1)"
      and rest: "attr_loop ln d as ((h1, p1), els, nse, acc @ [ba]) = Inr (hp1, els', nse', acc')"
      using False by (auto simp: hp0 split: sum.splits prod.splits)
    have "short_keys (h1, p1)"
      using Cons.prems(1) g hp0 getAttr_short_keys by blast
    then show ?thesis using Cons.IH rest by blast
  qed
qed

lemma token_loop_short_keys:
  "short_keys (pool st) \<Longrightarrow> token_loop steps st = Inr st' \<Longrightarrow> short_keys (pool st')"
proof (induction steps arbitrary: st)
  case Nil
  then show ?case by simp
next
  case (Cons sp sps)
  define ln where "ln = line (lr st) (offset_before sp)"
  define st1 where "st1 = st\<lparr>lr := foldl Read (lr st) (chunks_read sp)\<rparr>"
  have p1: "pool st1 = pool st" by (simp add: st1_def)
  obtain h p where hp: "pool st = (h, p)" by (cases "pool st")
  note eq = Cons.prems(2) [unfolded token_loop.simps Let_def, folded ln_def st1_def]
  show ?case
  proof (cases "token sp")
    case (StartElement nm attrs)
    from eq obtain hp1 els nse acc r1 h2 p2 r2 h3 p3 where
      a: "attr_loop ln (depth st1) attrs (pool st1, elements st1, namespaceEnds st1, []) = Inr (hp1, els, nse, acc)"
      and g: "get (Space nm) hp1 = Inr (r1, h2, p2)" "get (Local nm) (h2, p2) = Inr (r2, h3, p3)"
      and rest: "token_loop sps (st1\<lparr>pool := (h3, p3), depth := depth st1 + 1,
                           elements := els @ [BinStartElement ln r1 r2 acc],
                           namespaceEnds := nse\<rparr>) = Inr st'"
      unfolding StartElement by (auto split: sum.splits prod.splits)
    have "short_keys hp1" using attr_loop_short_keys [OF _ a] Cons.prems(1) p1 by simp
    then have "short_keys (h3, p3)" using g get_short_keys by (cases hp1) blast
    then show ?thesis using Cons.IH [OF _ rest] by simp
  next
    case (EndElement nm)
    from eq obtain r1 h2 p2 r2 h3 p3 st2 where
      g: "get (Space nm) (pool st1) = Inr (r1, h2, p2)" "get (Local nm) (h2, p2) = Inr (r2, h3, p3)"
      and rest: "token_loop sps st2 = Inr st'" and p2: "pool st2 = (h3, p3)"
      unfolding EndElement by (auto split: sum.splits prod.splits option.splits)
    have "short_keys (h3, p3)"
      using g get_short_keys Cons.prems(1) p1 hp by (metis)
    then show ?thesis using Cons.IH [OF _ rest] p2 by simp
  next
    case (CharData cd)
    show ?thesis
    proof (cases "TrimSpace cd = []")
      case True
      then have "token_loop sps st1 = Inr st'" using eq CharData by simp
      then show ?thesis using Cons.IH [of st1] Cons.prems(1) p1 by simp
    next
      case False
      from eq obtain r h1 p1' where
        g: "get ([CHR 0x09] @ TrimSpace cd @ [CHR 0x0A]) (pool st1) = Inr (r, h1, p1')"
        and rest: "token_loop sps (st1\<lparr>pool := (h1, p1')\<rparr>) = Inr st'"
        unfolding CharData using False by (auto split: sum.splits prod.splits)
      have "short_keys (h1, p1')"
        using g get_short_keys Cons.prems(1) p1 hp by (metis)
      then show ?thesis using Cons.IH [OF _ rest] by simp
    qed
  next
    case (Comment c)
    then have "token_loop sps st1 = Inr st'" using eq by simp
    then show ?thesis using Cons.IH [of st1] Cons.prems(1) p1 by simp
  next
    case (ProcInst target inst)
    then have "token_loop sps st1 = Inr st'" using eq by simp
    then show ?thesis using Cons.IH [of st1] Cons.prems(1) p1 by simp
  next
    case (Directive dv)
    then have "token_loop sps st1 = Inr st'" using eq by simp
    then show ?thesis using Cons.IH [of st1] Cons.prems(1) p1 by simp
  qed
qed

lemma reachable_short_keys:
  "token_loop steps init_state = Inr st \<Longrightarrow> short_keys (pool st)"
  using token_loop_short_keys [of init_state steps st] by (simp add: init_state_def short_keys_empty)

lemma Atoi_error_form: "Atoi v = Inl err \<Longrightarrow> \<exists>fn w ne. err = NumError fn w ne"
  unfolding Atoi_def Let_def by (auto split: if_splits)

lemma ParseBool_error_form: "ParseBool v = Inl err \<Longrightarrow> \<exists>fn w ne. err = NumError fn w ne"
  unfolding ParseBool_def by (auto split: if_splits)

lemma getAttr_error_form:
  assumes "getAttr attr hp = Inr (Inl err, h', p')"
  shows "\<exists>fn v ne. err = NumError fn v ne"
proof -
  from assms have "Atoi (Value attr) = Inl err \<or> ParseBool (Value attr) = Inl err"
    unfolding getAttr_def Let_def
    by (auto split: sum.splits prod.splits if_splits)
  then show ?thesis using Atoi_error_form ParseBool_error_form by blast
qed

lemma attr_loop_Returned:
  "attr_loop ln d as st = Inl (Returned e) \<Longrightarrow> \<exists>l fn v ne. e = Errorf_line_local ln l (NumError fn v ne)"
proof (induction as arbitrary: st)
  case Nil
  then show ?case by simp
next
  case (Cons a as)
  obtain hp0 els nse acc where st: "st = (hp0, els, nse, acc)" by (cases st)
  show ?case
  proof (cases "Space (Name a) = ''xmlns''")
    case True
    from Cons.prems obtain st' where "attr_loop ln d as st' = Inl (Returned e)"
      using True by (auto simp: st split: sum.splits prod.splits)
    then show ?thesis by (rule Cons.IH)
  next
    case False
    from Cons.prems consider
      (err) err h1 p1 where "getAttr a hp0 = Inr (Inl err, h1, p1)" "e = Errorf_line_local ln (Local (Name a)) err"
      | (rest) st' where "attr_loop ln d as st' = Inl (Returned e)"
      using False by (auto simp: st split: sum.splits prod.splits)
    then show ?thesis
    proof cases
      case err
      then show ?thesis using getAttr_error_form [of a hp0 err h1 p1] by blast
    next
      case rest
      then show ?thesis by (rule Cons.IH)
    qed
  qed
qed

lemma token_loop_Returned:
  "token_loop steps st = Inl (Returned e) \<Longrightarrow> \<exists>ln l fn v ne. e = Errorf_line_local ln l (NumError fn v ne)"
proof (induction steps arbitrary: st)
  case Nil
  then show ?case by simp
next
  case (Cons sp sps)
  define ln where "ln = line (lr st) (offset_before sp)"
  define st1 where "st1 = st\<lparr>lr := foldl Read (lr st) (chunks_read sp)\<rparr>"
  note eq = Cons.prems [unfolded token_loop.simps Let_def, folded ln_def st1_def]
  show ?case
  proof (cases "token sp")
    case (StartElement nm attrs)
    from eq consider
      (a) "attr_loop ln (depth st1) attrs (pool st1, elements st1, namespaceEnds st1, []) = Inl (Returned e)"
      | (rest) st2 where "token_loop sps st2 = Inl (Returned e)"
      unfolding StartElement by (auto split: sum.splits prod.splits)
    then show ?thesis
    proof cases
      case a
      then show ?thesis using attr_loop_Returned by blast
    next
      case rest
      then show ?thesis by (rule Cons.IH)
    qed
  next
    case (EndElement nm)
    from eq obtain st2 where "token_loop sps st2 = Inl (Returned e)"
      unfolding EndElement by (auto split: sum.splits prod.splits option.splits)
    then show ?thesis by (rule Cons.IH)
  next
    case (CharData cd)
    from eq obtain st2 where "token_loop sps st2 = Inl (Returned e)"
      unfolding CharData by (auto split: sum.splits prod.splits if_splits)
    then show ?thesis by (rule Cons.IH)
  next
    case (Comment c)
    then have "token_loop sps st1 = Inl (Returned e)" using eq by simp
    then show ?thesis by (rule Cons.IH)
  next
    case (ProcInst target inst)
    then have "token_loop sps st1 = Inl (Returned e)" using eq by simp
    then show ?thesis by (rule Cons.IH)
  next
    case (Directive dv)
    then have "token_loop sps st1 = Inl (Returned e)" using eq by simp
    then show ?thesis by (rule Cons.IH)
  qed
qed

lemma binaryXML_Returned:
  "binaryXML run fin = Inl (Returned e) \<Longrightarrow>
   (\<exists>msg. e = DecoderError msg) \<or> (\<exists>ln l fn v ne. e = Errorf_line_local ln l (NumError fn v ne))"
  unfolding binaryXML_def
  using token_loop_Returned [of run init_state e]
  by (auto split: sum.splits decoder_end.splits)

lemma token_step_name_panics:
  assumes long: "65536 \<le> length s" and sk: "short_keys (pool st)"
    and tk: "(token sp = StartElement nm attrs
                \<and> attr_loop (line (lr st) (offset_before sp)) (depth st) attrs
                     (pool st, elements st, namespaceEnds st, []) = Inr st1)
             \<or> token sp = EndElement nm"
    and nm: "length (Space nm) < 65536" "Local nm = s"
  shows "token_loop (sp # after) st = Inl (Panicked (StringTooLong (length s) (take 100 s)))"
  using tk
proof
  assume a: "token sp = StartElement nm attrs
                \<and> attr_loop (line (lr st) (offset_before sp)) (depth st) attrs
                     (pool st, elements st, namespaceEnds st, []) = Inr st1"
  obtain hp1 els nse acc where st1: "st1 = (hp1, els, nse, acc)" by (cases st1)
  obtain h1 p1 where hp1: "hp1 = (h1, p1)" by (cases hp1)
  have "short_keys hp1"
    using attr_loop_short_keys [OF sk] a st1 by blast
  then have sk1: "short_keys (h1, p1)" by (simp add: hp1)
  obtain r1 h2 p2 where g1: "get (Space nm) (h1, p1) = Inr (r1, h2, p2)"
    using get_short [OF nm(1)] by blast
  have g2: "get (Local nm) (h2, p2) = Inl (StringTooLong (length s) (take 100 s))"
    unfolding nm(2) by (rule get_long_fresh [OF get_short_keys [OF sk1 g1] long])
  show ?thesis
    using a by (simp add: Let_def st1 hp1 g1 g2 del: attr_loop.simps)
next
  assume e: "token sp = EndElement nm"
  obtain h p where hp: "pool st = (h, p)" by (cases "pool st")
  obtain r1 h2 p2 where g1: "get (Space nm) (h, p) = Inr (r1, h2, p2)"
    using get_short [OF nm(1)] by blast
  have g2: "get (Local nm) (h2, p2) = Inl (StringTooLong (length s) (take 100 s))"
    unfolding nm(2) using get_long_fresh [OF get_short_keys [OF _ g1] long] sk hp by simp
  show ?thesis
    by (simp add: Let_def e hp g1 g2)
qed

lemma token_step_chardata_panics:
  assumes long: "65536 \<le> length s" and sk: "short_keys (pool st)"
    and tk: "token sp = CharData cd" "TrimSpace cd \<noteq> []" "[CHR 0x09] @ TrimSpace cd @ [CHR 0x0A] = s"
  shows "token_loop (sp # after) st = Inl (Panicked (StringTooLong (length s) (take 100 s)))"
proof -
  obtain h p where hp: "pool st = (h, p)" by (cases "pool st")
  have g: "get ([CHR 0x09] @ TrimSpace cd @ [CHR 0x0A]) (h, p) = Inl (StringTooLong (length s) (take 100 s))"
    unfolding tk(3) using get_long_fresh [OF _ long] sk hp by simp
  show ?thesis
    using tk(2) g by (simp add: Let_def tk(1) hp)
qed

lemma binaryXML_step_panics:
  assumes "token_loop before init_state = Inr st"
    and "token_loop (sp # after) st = Inl (Panicked pn)"
  shows "binaryXML (before @ sp # after) fin = Inl (Panicked pn)"
  unfolding binaryXML_def token_loop_append assms(1) sum.case assms(2) ..

lemma runes_cjk: "runes (cjk_string n) = replicate n 0x4e16"
  by (induction n)
    (simp_all add: cjk_string_def DecodeRuneInString_def rune_size_def accept_lo_def accept_hi_def
      cont_byte_def Let_def)

lemma utf16_replicate_4e16: "utf16_Encode (replicate n 0x4e16) = replicate n 0x4e16"
  by (induction n) (simp_all add: utf16_Encode_def EncodeRune_def)

lemma length_cjk: "length (cjk_string n) = 3 * n"
  by (induction n) (simp_all add: cjk_string_def)

text \<open>
  The test of \<^verbatim>\<open>get\<close> is \<^verbatim>\<open>len(str)>>16 > 0\<close>: it compares the number of bytes with
  \<open>2 ^ 16\<close>, where its message speaks of \<^verbatim>\<open>1<<15\<close> and the length field counts UTF-16
  code units.  A string of \<open>2 ^ 15\<close> letters is accepted and gets the length word 0x8000,
  whose top bit announces the long form; a string of 21846 CJK characters, which has fewer
  than \<open>2 ^ 15\<close> code units in 65538 bytes, is refused.
\<close>

lemma get_threshold_is_65536_bytes:
  "length (utf16_Encode (runes (replicate 32768 CHR ''a''))) = 2 ^ 15
   \<and> (\<exists>r h' p'. get (replicate 32768 CHR ''a'') ([], new_binStringPool) = Inr (r, h', p')
         \<and> take 2 (enc (h' ! r)) = [0x00, 0x80])
   \<and> length (utf16_Encode (runes (cjk_string 21846))) = 21846
   \<and> length (cjk_string 21846) = 65538
   \<and> get (cjk_string 21846) ([], new_binStringPool)
       = Inl (StringTooLong 65538 (take 100 (cjk_string 21846)))"
proof -
  have 1: "length (utf16_Encode (runes (replicate 32768 CHR ''a''))) = 2 ^ 15"
    by (simp add: runes_replicate_a utf16_replicate_a)
  have "get (replicate 32768 CHR ''a'') ([], new_binStringPool)
        = Inr (0, [\<lparr>ind = 0, str = replicate 32768 CHR ''a'',
                     enc = encode_bstring (replicate 32768 CHR ''a'')\<rparr>],
               \<lparr>pool_s = [0], pool_m = [replicate 32768 CHR ''a'' \<mapsto> 0]\<rparr>)"
    by (subst get_new) (simp_all add: new_binStringPool_def)
  moreover have "take 2 (encode_bstring (replicate 32768 CHR ''a'')) = [0x00, 0x80]"
    unfolding encode_bstring_eq by (simp add: appendU16_def)
  ultimately have 2: "\<exists>r h' p'. get (replicate 32768 CHR ''a'') ([], new_binStringPool) = Inr (r, h', p')
         \<and> take 2 (enc (h' ! r)) = [0x00, 0x80]"
    by simp
  have 3: "length (utf16_Encode (runes (cjk_string 21846))) = 21846"
    by (simp add: runes_cjk utf16_replicate_4e16)
  have 4: "length (cjk_string 21846) = 65538"
    by (simp add: length_cjk)
  have 5: "get (cjk_string 21846) ([], new_binStringPool)
       = Inl (StringTooLong 65538 (take 100 (cjk_string 21846)))"
    using get_panic [of new_binStringPool "cjk_string 21846" "[]"]
    by (simp add: 4 new_binStringPool_def)
  show ?thesis using 1 2 3 4 5 by blast
qed

text \<open>
  Claim C4, as stated, fails: a name of 65536 letters has at least \<open>2 ^ 15\<close> code units,
  and \<^verbatim>\<open>binaryXML\<close> ends in the panic of \<^verbatim>\<open>get\<close>, not in a returned error.
  \<^verbatim>\<open>get\<close> has no error result, and \<^verbatim>\<open>binaryXML\<close> has no \<^verbatim>\<open>recover\<close>.
\<close>

theorem too_long_string_panics_counterexample:
  "2 ^ 15 \<le> length (utf16_Encode (runes (replicate 65536 CHR ''a'')))
   \<and> (\<forall>cs. binaryXML
         [\<lparr>offset_before = 0, chunks_read = cs,
           token = StartElement \<lparr>Space = [], Local = replicate 65536 CHR ''a''\<rparr> []\<rparr>] EOF
        = Inl (Panicked (StringTooLong 65536 (replicate 100 CHR ''a''))))"
proof -
  have g0: "get [] ([], new_binStringPool)
            = Inr (0, [\<lparr>ind = 0, str = [], enc = encode_bstring []\<rparr>], \<lparr>pool_s = [0], pool_m = [[] \<mapsto> 0]\<rparr>)"
    by (subst get_new) (simp_all add: new_binStringPool_def)
  have g1: "get (replicate 65536 CHR ''a'') ([\<lparr>ind = 0, str = [], enc = encode_bstring []\<rparr>], \<lparr>pool_s = [0], pool_m = [[] \<mapsto> 0]\<rparr>)
            = Inl (StringTooLong 65536 (replicate 100 CHR ''a''))"
    by (subst get_panic) simp_all
  show ?thesis
    by (simp add: runes_replicate_a utf16_replicate_a binaryXML_def init_state_def g0 g1)
qed

text \<open>
  Claim C4, amended.  Take a string of at least \<open>2 ^ 15\<close> UTF-16 code units whose text
  has at least \<open>2 ^ 16\<close> bytes; every string of at least \<open>2 ^ 16\<close> code units is one.
  Interning it, when it is not in the pool, panics with the length and the first 100 bytes.
  In \<^verbatim>\<open>binaryXML\<close> it is never in the pool: when the tokens before are accepted and
  the string is the local name of a start element whose attributes are accepted, or of an
  end element, or the text of character data, the call ends in that panic, whatever
  follows.  An error that \<^verbatim>\<open>binaryXML\<close> returns is the decoder's or that of a typed
  attribute, never one about a long string.  A string of fewer than \<open>2 ^ 15\<close> code units
  in fewer than \<open>2 ^ 16\<close> bytes is always interned.  Nothing is said of the strings
  between, where the test of \<^verbatim>\<open>get\<close> departs from its message.
\<close>

theorem get_long_panics_short_succeeds:
  "(2 ^ 15 \<le> length (utf16_Encode (runes s)) \<and> 2 ^ 16 \<le> length s \<and> pool_m p s = None
      \<longrightarrow> get s (h, p) = Inl (StringTooLong (length s) (take 100 s)))
   \<and> (2 ^ 16 \<le> length (utf16_Encode (runes s)) \<longrightarrow> 2 ^ 16 \<le> length s)
   \<and> (2 ^ 15 \<le> length (utf16_Encode (runes s)) \<and> 2 ^ 16 \<le> length s
        \<and> token_loop before init_state = Inr st
        \<and> ((token sp = StartElement nm attrs
              \<and> attr_loop (line (lr st) (offset_before sp)) (depth st) attrs
                   (pool st, elements st, namespaceEnds st, []) = Inr st1)
            \<or> token sp = EndElement nm)
        \<and> length (Space nm) < 2 ^ 16 \<and> Local nm = s
      \<longrightarrow> binaryXML (before @ sp # after) fin
          = Inl (Panicked (StringTooLong (length s) (take 100 s))))
   \<and> (2 ^ 15 \<le> length (utf16_Encode (runes s)) \<and> 2 ^ 16 \<le> length s
        \<and> token_loop before init_state = Inr st
        \<and> token sp = CharData cd \<and> TrimSpace cd \<noteq> [] \<and> [CHR 0x09] @ TrimSpace cd @ [CHR 0x0A] = s
      \<longrightarrow> binaryXML (before @ sp # after) fin
          = Inl (Panicked (StringTooLong (length s) (take 100 s))))
   \<and> (binaryXML run fin = Inl (Returned e)
      \<longrightarrow> (\<exists>msg. e = DecoderError msg)
          \<or> (\<exists>ln l fn v ne. e = Errorf_line_local ln l (NumError fn v ne)))
   \<and> (length (utf16_Encode (runes s)) < 2 ^ 15 \<and> length s < 2 ^ 16
      \<longrightarrow> (\<exists>r h' p'. get s (h, p) = Inr (r, h', p') \<and> pool_m p' s = Some r))"
proof (intro conjI impI)
  assume "2 ^ 15 \<le> length (utf16_Encode (runes s)) \<and> 2 ^ 16 \<le> length s \<and> pool_m p s = None"
  then show "get s (h, p) = Inl (StringTooLong (length s) (take 100 s))"
    by (simp add: get_panic)
next
  assume "2 ^ 16 \<le> length (utf16_Encode (runes s))"
  then show "2 ^ 16 \<le> length s"
    using units_le_bytes [of s] by linarith
next
  assume a: "2 ^ 15 \<le> length (utf16_Encode (runes s)) \<and> 2 ^ 16 \<le> length s
        \<and> token_loop before init_state = Inr st
        \<and> ((token sp = StartElement nm attrs
              \<and> attr_loop (line (lr st) (offset_before sp)) (depth st) attrs
                   (pool st, elements st, namespaceEnds st, []) = Inr st1)
            \<or> token sp = EndElement nm)
        \<and> length (Space nm) < 2 ^ 16 \<and> Local nm = s"
  then have b: "token_loop before init_state = Inr st" by simp
  have "token_loop (sp # after) st = Inl (Panicked (StringTooLong (length s) (take 100 s)))"
    by (rule token_step_name_panics [OF _ reachable_short_keys [OF b], where nm = nm and attrs = attrs and ?st1.0 = st1])
      (use a in simp_all)
  then show "binaryXML (before @ sp # after) fin
          = Inl (Panicked (StringTooLong (length s) (take 100 s)))"
    by (rule binaryXML_step_panics [OF b])
next
  assume a: "2 ^ 15 \<le> length (utf16_Encode (runes s)) \<and> 2 ^ 16 \<le> length s
        \<and> token_loop before init_state = Inr st
        \<and> token sp = CharData cd \<and> TrimSpace cd \<noteq> [] \<and> [CHR 0x09] @ TrimSpace cd @ [CHR 0x0A] = s"
  then have b: "token_loop before init_state = Inr st" by simp
  have "token_loop (sp # after) st = Inl (Panicked (StringTooLong (length s) (take 100 s)))"
    by (rule token_step_chardata_panics [OF _ reachable_short_keys [OF b], where cd = cd])
      (use a in simp_all)
  then show "binaryXML (before @ sp # after) fin
          = Inl (Panicked (StringTooLong (length s) (take 100 s)))"
    by (rule binaryXML_step_panics [OF b])
next
  assume "binaryXML run fin = Inl (Returned e)"
  then show "(\<exists>msg. e = DecoderError msg)
          \<or> (\<exists>ln l fn v ne. e = Errorf_line_local ln l (NumError fn v ne))"
    by (rule binaryXML_Returned)
next
  assume "length (utf16_Encode (runes s)) < 2 ^ 15 \<and> length s < 2 ^ 16"
  then show "\<exists>r h' p'. get s (h, p) = Inr (r, h', p') \<and> pool_m p' s = Some r"
    using get_short [of s h p] by simp
qed

text \<open>
  A name of 65536 letters panics, in \<^verbatim>\<open>get\<close> and as the name of an end element;
  \<^verbatim>\<open>manifest\<close> is interned.
\<close>

theorem get_long_panics_short_succeeds_witness:
  "get (replicate 65536 CHR ''a'') ([], new_binStringPool) = Inl (StringTooLong 65536 (replicate 100 CHR ''a''))
   \<and> binaryXML
        [\<lparr>offset_before = 0, chunks_read = [],
          token = EndElement \<lparr>Space = [], Local = replicate 65536 CHR ''a''\<rparr>\<rparr>] EOF
      = Inl (Panicked (StringTooLong 65536 (replicate 100 CHR ''a'')))
   \<and> (\<exists>r h' p'. get ''manifest'' ([], new_binStringPool) = Inr (r, h', p') \<and> pool_m p' ''manifest'' = Some r)"
proof -
  have u: "length (utf16_Encode (runes (replicate 65536 CHR ''a''))) = 65536"
    by (simp add: runes_replicate_a utf16_replicate_a)
  have m: "length (utf16_Encode (runes ''manifest'')) \<le> 8"
    using units_le_bytes [of "''manifest''"] by simp
  have 1: "get (replicate 65536 CHR ''a'') ([], new_binStringPool) = Inl (StringTooLong 65536 (replicate 100 CHR ''a''))"
    using get_long_panics_short_succeeds [where s = "replicate 65536 CHR ''a''" and p = new_binStringPool
        and h = "[]", THEN conjunct1]
    by (simp add: u new_binStringPool_def)
  have 2: "binaryXML
        ([] @ \<lparr>offset_before = 0, chunks_read = [],
          token = EndElement \<lparr>Space = [], Local = replicate 65536 CHR ''a''\<rparr>\<rparr> # []) EOF
      = Inl (Panicked (StringTooLong 65536 (replicate 100 CHR ''a'')))"
    using get_long_panics_short_succeeds [where s = "replicate 65536 CHR ''a''" and before = "[]"
        and st = init_state
        and sp = "\<lparr>offset_before = 0, chunks_read = [],
          token = EndElement \<lparr>Space = [], Local = replicate 65536 CHR ''a''\<rparr>\<rparr>"
        and nm = "\<lparr>Space = [], Local = replicate 65536 CHR ''a''\<rparr>" and after = "[]" and fin = EOF,
        THEN conjunct2, THEN conjunct2, THEN conjunct1]
    by (simp add: u del: token_loop.simps(2))
  have 3: "\<exists>r h' p'. get ''manifest'' ([], new_binStringPool) = Inr (r, h', p') \<and> pool_m p' ''manifest'' = Some r"
    using get_long_panics_short_succeeds [where s = "''manifest''" and p = new_binStringPool and h = "[]",
        THEN conjunct2, THEN conjunct2, THEN conjunct2, THEN conjunct2, THEN conjunct2] m
    by simp
  show ?thesis using 1 2 3 by simp
qed

section \<open>Properties of the line reader\<close>

lemma Search_loop_bounds:
  assumes "\<forall>a b. a \<le> b \<and> b < n \<and> f a \<longrightarrow> f b"
    and "i \<le> j" "j \<le> n"
    and "\<forall>k < i. \<not> f k"
    and "\<forall>k. j \<le> k \<and> k < n \<longrightarrow> f k"
  shows "Search_loop f i j \<le> n \<and> (\<forall>k < Search_loop f i j. \<not> f k)
         \<and> (\<forall>k. Search_loop f i j \<le> k \<and> k < n \<longrightarrow> f k)"
  using assms
proof (induction f i j rule: Search_loop.induct)
  case (1 f i j)
  note mono = "1.prems"(1)
  show ?case
  proof (cases "i < j")
    case False
    then have "Search_loop f i j = i" by (simp add: Search_loop.simps [of f i j])
    moreover have "i = j" using False "1.prems"(2) by simp
    ultimately show ?thesis using "1.prems"(3,4,5) by simp
  next
    case True
    define h where "h = (i + j) div 2"
    have hb: "i \<le> h" "h < j" using True by (simp_all add: h_def)
    show ?thesis
    proof (cases "f h")
      case False
      have nf: "\<forall>k < h + 1. \<not> f k"
      proof (intro allI impI)
        fix k assume k: "k < h + 1"
        show "\<not> f k"
        proof
          assume "f k"
          moreover have "k \<le> h" "h < n" using k hb "1.prems"(3) by simp_all
          ultimately have "f h" using mono by blast
          then show False using False by simp
        qed
      qed
      have le: "h + 1 \<le> j" using hb by simp
      have eq: "Search_loop f i j = Search_loop f (h + 1) j"
        using True False by (simp add: Search_loop.simps [of f i j] h_def)
      show ?thesis
        unfolding eq
        by (rule "1.IH"(1) [OF True h_def False mono le "1.prems"(3) nf "1.prems"(5)])
    next
      case fh: True
      have ff: "\<forall>k. h \<le> k \<and> k < n \<longrightarrow> f k"
        using mono fh by blast
      have le: "i \<le> h" "h \<le> n" using hb "1.prems"(3) by simp_all
      have eq: "Search_loop f i j = Search_loop f i h"
        using True fh by (simp add: Search_loop.simps [of f i j] h_def)
      have nn: "\<not> \<not> f h" using fh by simp
      show ?thesis
        unfolding eq
        by (rule "1.IH"(2) [OF True h_def nn mono le "1.prems"(4) ff])
    qed
  qed
qed

lemma Search_sorted_count:
  fixes ls :: "int list"
  assumes "sorted ls"
  shows "Search (length ls) (\<lambda>i. pos < ls ! i) = length (filter (\<lambda>x. x \<le> pos) ls)"
proof -
  define r where "r = Search (length ls) (\<lambda>i. pos < ls ! i)"
  have mono: "\<forall>a b. a \<le> b \<and> b < length ls \<and> pos < ls ! a \<longrightarrow> pos < ls ! b"
  proof (intro allI impI)
    fix a b assume "a \<le> b \<and> b < length ls \<and> pos < ls ! a"
    then show "pos < ls ! b"
      using sorted_nth_mono [OF assms, of a b] by simp
  qed
  have b: "r \<le> length ls \<and> (\<forall>k < r. \<not> pos < ls ! k) \<and> (\<forall>k. r \<le> k \<and> k < length ls \<longrightarrow> pos < ls ! k)"
    unfolding r_def Search_def
    by (rule Search_loop_bounds [OF mono]) simp_all
  have 1: "filter (\<lambda>x. x \<le> pos) (take r ls) = take r ls"
  proof -
    have "\<forall>k<r. ls ! k \<le> pos" using b by (auto simp: not_less)
    then have "\<forall>x \<in> set (take r ls). x \<le> pos"
      by (simp add: all_set_conv_all_nth)
    then show ?thesis by (simp add: filter_id_conv)
  qed
  have 2: "filter (\<lambda>x. x \<le> pos) (drop r ls) = []"
  proof -
    have "\<forall>k. r \<le> k \<and> k < length ls \<longrightarrow> \<not> ls ! k \<le> pos" using b by (auto simp: not_le)
    then have "\<forall>x \<in> set (drop r ls). \<not> x \<le> pos"
      by (simp add: all_set_conv_all_nth)
    then show ?thesis by (simp add: filter_empty_conv)
  qed
  have "filter (\<lambda>x. x \<le> pos) ls = filter (\<lambda>x. x \<le> pos) (take r ls @ drop r ls)"
    by simp
  also have "\<dots> = take r ls"
    unfolding filter_append 1 2 by simp
  finally have "length (filter (\<lambda>x. x \<le> pos) ls) = r"
    using b by simp
  then show ?thesis by (simp add: r_def)
qed


lemma foldl_cond_snoc:
  "foldl (\<lambda>ls i. if P i then ls @ [g i] else ls) l0 xs = l0 @ map g (filter P xs)"
  by (induction xs arbitrary: l0) simp_all

lemma Read_eq:
  "Read r p = \<lparr>off = off r + int (length p),
               lines = lines r @ map (\<lambda>i. off r + int i) (nl_positions p)\<rparr>"
  by (simp add: Read_def foldl_cond_snoc nl_positions_def)

lemma nl_positions_append:
  "nl_positions (a @ b) = nl_positions a @ map (\<lambda>i. i + length a) (nl_positions b)"
proof -
  have u0: "[0..<length a + length b] = [0..<length a] @ [length a..<length a + length b]"
    by (rule upt_add_eq_append) simp
  have u1: "[length a..<length a + length b] = map (\<lambda>i. i + length a) [0..<length b]"
    by (metis map_add_upt add.commute)
  have 1: "filter (\<lambda>i. (a @ b) ! i = CHR 0x0A) [0..<length a] = filter (\<lambda>i. a ! i = CHR 0x0A) [0..<length a]"
    by (rule filter_cong) (simp_all add: nth_append)
  have 2: "filter (\<lambda>i. (a @ b) ! i = CHR 0x0A) (map (\<lambda>i. i + length a) [0..<length b])
           = map (\<lambda>i. i + length a) (filter (\<lambda>i. b ! i = CHR 0x0A) [0..<length b])"
    by (simp add: filter_map comp_def nth_append)
  show ?thesis
    unfolding nl_positions_def length_append u0 u1 filter_append 1 2 ..
qed

lemma foldl_Read:
  "foldl Read r cs = \<lparr>off = off r + int (length (concat cs)),
                      lines = lines r @ map (\<lambda>i. off r + int i) (nl_positions (concat cs))\<rparr>"
proof (induction cs arbitrary: r)
  case Nil
  then show ?case by (simp add: nl_positions_def)
next
  case (Cons c cs)
  have "foldl Read r (c # cs) = foldl Read (Read r c) cs" by simp
  also have "\<dots> = \<lparr>off = off (Read r c) + int (length (concat cs)),
                      lines = lines (Read r c) @ map (\<lambda>i. off (Read r c) + int i) (nl_positions (concat cs))\<rparr>"
    by (rule Cons.IH)
  also have "\<dots> = \<lparr>off = off r + int (length (concat (c # cs))),
                      lines = lines r @ map (\<lambda>i. off r + int i) (nl_positions (concat (c # cs)))\<rparr>"
    by (simp add: Read_eq nl_positions_append comp_def add.assoc add.commute [of "int (length c)"])
  finally show ?case .
qed

lemma sorted_nl_positions: "sorted (map int (nl_positions raw))"
proof -
  have "sorted (nl_positions raw)"
    unfolding nl_positions_def by (rule sorted_wrt_filter) simp
  then show ?thesis
    by (simp add: sorted_wrt_map)
qed

lemma count_take:
  "length (filter P (take k xs)) = length (filter (\<lambda>i. i < k \<and> P (xs ! i)) [0..<length xs])"
proof (induction xs rule: rev_induct)
  case Nil
  then show ?case by simp
next
  case (snoc x xs)
  have c: "filter (\<lambda>i. i < k \<and> P ((xs @ [x]) ! i)) [0..<length xs]
           = filter (\<lambda>i. i < k \<and> P (xs ! i)) [0..<length xs]"
    by (rule filter_cong) (simp_all add: nth_append)
  have t: "take (k - length xs) [x] = (if length xs < k then [x] else [])"
    by (cases "k - length xs") auto
  show ?case
    using snoc.IH by (simp add: c t)
qed

lemma count_le_pos:
  "length (filter (\<lambda>x. x \<le> pos) (map int (nl_positions raw))) = newlines_before raw (pos + 1)"
proof -
  have "length (filter (\<lambda>x. x \<le> pos) (map int (nl_positions raw)))
        = length (filter (\<lambda>i. int i \<le> pos) (nl_positions raw))"
    by (simp add: filter_map comp_def)
  also have "\<dots> = length (filter (\<lambda>i. raw ! i = CHR 0x0A \<and> int i \<le> pos) [0..<length raw])"
    by (simp add: nl_positions_def)
  also have "filter (\<lambda>i. raw ! i = CHR 0x0A \<and> int i \<le> pos) [0..<length raw]
             = filter (\<lambda>i. i < nat (pos + 1) \<and> raw ! i = CHR 0x0A) [0..<length raw]"
    by (rule filter_cong) auto
  also have "length \<dots> = length (filter (\<lambda>c. c = CHR 0x0A) (take (nat (pos + 1)) raw))"
    by (rule count_take [symmetric])
  finally show ?thesis
    by (simp add: newlines_before_def)
qed

lemma line_after_reads:
  "line (foldl Read new_lineReader cs) pos = int (newlines_before (concat cs) (pos + 1)) + 1"
proof -
  have l: "lines (foldl Read new_lineReader cs) = map int (nl_positions (concat cs))"
    by (simp add: foldl_Read new_lineReader_def)
  have "Search (length (map int (nl_positions (concat cs)))) (\<lambda>i. pos < map int (nl_positions (concat cs)) ! i)
        = length (filter (\<lambda>x. x \<le> pos) (map int (nl_positions (concat cs))))"
    by (rule Search_sorted_count [OF sorted_nl_positions])
  also have "\<dots> = newlines_before (concat cs) (pos + 1)"
    by (rule count_le_pos)
  finally show ?thesis
    unfolding line_def l by simp
qed

text \<open>
  Claim C8.  For a reader that has read the chunks \<open>cs\<close>, \<^verbatim>\<open>line(pos)\<close> is one more
  than the number of newline bytes at offsets up to and including \<open>pos\<close>: a newline at
  the position itself is counted, although it does not precede the position.  After
  reading \<^verbatim>\<open><a/>\<close> and a newline, position 4 (the end of the element, where the newline
  stands) is reported as line 2, with no newline before it; so the end of a self-closing
  element is put on the line after its start, where the fixture has both on one line.
\<close>

theorem line_counts_newline_at_position:
  "line (foldl Read new_lineReader cs) pos = int (newlines_before (concat cs) (pos + 1)) + 1
   \<and> line (Read new_lineReader (''<a/>'' @ [CHR 0x0A])) 4 = 2
   \<and> int (newlines_before (''<a/>'' @ [CHR 0x0A]) 4) + 1 = 1
   \<and> map_sum id elements (token_loop self_closing init_state)
       = Inr [BinStartElement 1 0 1 [], BinEndElement 2 0 1 []]"
proof -
  have 1: "line (Read new_lineReader (''<a/>'' @ [CHR 0x0A])) 4 = 2"
    using line_after_reads [of "[''<a/>'' @ [CHR 0x0A]]" 4]
    by (simp add: newlines_before_def)
  have 0: "line new_lineReader 0 = 1"
    using line_after_reads [of "[]" 0] by (simp add: newlines_before_def)
  have g1: "get [] ([], new_binStringPool)
            = Inr (0, [\<lparr>ind = 0, str = [], enc = encode_bstring []\<rparr>], \<lparr>pool_s = [0], pool_m = [[] \<mapsto> 0]\<rparr>)"
    by (subst get_new) (simp_all add: new_binStringPool_def)
  have g2: "get ''a'' ([\<lparr>ind = 0, str = [], enc = encode_bstring []\<rparr>], \<lparr>pool_s = [0], pool_m = [[] \<mapsto> 0]\<rparr>)
            = Inr (Suc 0, [\<lparr>ind = 0, str = [], enc = encode_bstring []\<rparr>,
                       \<lparr>ind = 1, str = ''a'', enc = encode_bstring ''a''\<rparr>],
                   \<lparr>pool_s = [0, Suc 0], pool_m = [[] \<mapsto> 0, ''a'' \<mapsto> Suc 0]\<rparr>)"
    by (subst get_new) simp_all
  have g3: "get [] ([\<lparr>ind = 0, str = [], enc = encode_bstring []\<rparr>,
                       \<lparr>ind = 1, str = ''a'', enc = encode_bstring ''a''\<rparr>],
                   \<lparr>pool_s = [0, Suc 0], pool_m = [[] \<mapsto> 0, ''a'' \<mapsto> Suc 0]\<rparr>)
           = Inr (0, [\<lparr>ind = 0, str = [], enc = encode_bstring []\<rparr>,
                       \<lparr>ind = 1, str = ''a'', enc = encode_bstring ''a''\<rparr>],
                   \<lparr>pool_s = [0, Suc 0], pool_m = [[] \<mapsto> 0, ''a'' \<mapsto> Suc 0]\<rparr>)"
    by (subst get_old) simp_all
  have g4: "get ''a'' ([\<lparr>ind = 0, str = [], enc = encode_bstring []\<rparr>,
                       \<lparr>ind = 1, str = ''a'', enc = encode_bstring ''a''\<rparr>],
                   \<lparr>pool_s = [0, Suc 0], pool_m = [[] \<mapsto> 0, ''a'' \<mapsto> Suc 0]\<rparr>)
           = Inr (Suc 0, [\<lparr>ind = 0, str = [], enc = encode_bstring []\<rparr>,
                       \<lparr>ind = 1, str = ''a'', enc = encode_bstring ''a''\<rparr>],
                   \<lparr>pool_s = [0, Suc 0], pool_m = [[] \<mapsto> 0, ''a'' \<mapsto> Suc 0]\<rparr>)"
    by (subst get_old) simp_all
  have t: "TrimSpace [CHR 0x0A] = []"
    by (simp add: TrimSpace_def space1_def)
  have 2: "map_sum id elements (token_loop self_closing init_state)
       = Inr [BinStartElement 1 0 1 [], BinEndElement 2 0 1 []]"
    using 0 1 by (simp add: self_closing_def init_state_def g1 g2 g3 g4 t)
  show ?thesis
    using line_after_reads [of cs pos] 1 2 by (simp add: newlines_before_def)
qed

section \<open>Properties of the encoder output\<close>

lemma pool_append_Nil: "pool_append h p b = b @ pool_append h p []"
  unfolding pool_append_eq [of h p b] pool_append_eq [of h p "[]"] by simp

lemma length_appendHeader: "length (appendHeader b typ sz) = length b + 8"
  by (simp add: appendHeader_eq)

lemma serialize_eq:
  assumes "sortPool (pool st) = (h, p)"
  shows "serialize st = appendHeader [] headerXML (8 + pool_size h p) @ pool_append h p []"
    and "int (length (serialize st)) = 8 + pool_size h p"
proof -
  show 1: "serialize st = appendHeader [] headerXML (8 + pool_size h p) @ pool_append h p []"
    unfolding serialize_def assms Let_def
    by (simp add: pool_append_Nil [of h p "appendHeader [] headerXML (8 + pool_size h p)"])
  show "int (length (serialize st)) = 8 + pool_size h p"
    unfolding 1 using length_pool_append [of h p "[]"] by (simp add: length_appendHeader)
qed

lemma serialize_size_fields:
  "readU32 (serialize st) 4 = int (length (serialize st)) mod 65536
   \<and> readU32 (serialize st) 12 = (int (length (serialize st)) - 8) mod 65536"
proof -
  obtain h p where hp: "sortPool (pool st) = (h, p)"
    by (cases "sortPool (pool st)")
  define hd where "hd = appendHeader [] headerXML (8 + pool_size h p)"
  have s1: "serialize st = pool_append h p hd"
    by (simp add: serialize_def hp Let_def hd_def)
  have l: "int (length (serialize st)) = 8 + pool_size h p"
    by (rule serialize_eq(2) [OF hp])
  have lh: "length hd = 8" by (simp add: hd_def length_appendHeader)
  have "readU32 (pool_append h p hd) (length hd + 4) = pool_size h p mod 65536"
    by (rule readU32_pool_append)
  then have "readU32 (serialize st) 12 = pool_size h p mod 65536"
    by (simp add: s1 lh)
  then have 2: "readU32 (serialize st) 12 = (int (length (serialize st)) - 8) mod 65536"
    unfolding l by simp
  have s2: "serialize st = [] @ ucast headerXML # ucast (drop_bit 8 headerXML) # 8 # 0
              # ucast (word_of_int (8 + pool_size h p) :: u16)
              # ucast (drop_bit 8 (word_of_int (8 + pool_size h p) :: u16)) # 0 # 0 # pool_append h p []"
    unfolding serialize_eq(1) [OF hp] appendHeader_eq by simp
  have "readU32 (serialize st) (length ([] :: byte list) + 4) = uint (word_of_int (8 + pool_size h p) :: u16)"
    unfolding s2 by (rule readU32_size_field)
  also have "\<dots> = (8 + pool_size h p) mod 65536"
    by (rule uint_word_of_int_16)
  finally have 1: "readU32 (serialize st) 4 = int (length (serialize st)) mod 65536"
    unfolding l by simp
  show ?thesis using 1 2 by simp
qed

text \<open>
  Claim C9.  The total-size field of a chunk header (bytes 4 to 7 of the header) is written
  by \<^verbatim>\<open>appendHeader\<close> for the file chunk and by \<^verbatim>\<open>append\<close> for the string pool as
  the 16-bit truncation of the computed size followed by two zero bytes.  Read back as a
  little-endian 32-bit number the field is the size modulo 65536, so it is the size exactly
  when the size is below 65536.  The size the pool computes is the number of bytes the pool
  appends.  In the bytes \<^verbatim>\<open>binaryXML\<close> returns, the field of the file header (at offset
  4) is their number modulo 65536, and the field of the pool header (at offset 12) is the
  number of the bytes after the file header modulo 65536.
\<close>

theorem chunk_size_fields_mod_65536:
  "take 4 (drop (length b + 4) (appendHeader b typ sz))
     = appendU16 (appendU16 [] (word_of_int (sz mod 65536))) 0
   \<and> take 4 (drop (length b + 4) (pool_append h p b))
     = appendU16 (appendU16 [] (word_of_int (pool_size h p mod 65536))) 0
   \<and> readU32 (appendHeader b typ sz) (length b + 4) = sz mod 65536
   \<and> readU32 (pool_append h p b) (length b + 4) = pool_size h p mod 65536
   \<and> ((readU32 (appendHeader b typ sz) (length b + 4) = sz) = (0 \<le> sz \<and> sz < 65536))
   \<and> int (length (pool_append h p b)) - int (length b) = pool_size h p
   \<and> ((readU32 (pool_append h p b) (length b + 4) = pool_size h p) = (pool_size h p < 65536))
   \<and> readU32 (serialize st) 4 = int (length (serialize st)) mod 65536
   \<and> readU32 (serialize st) 12 = (int (length (serialize st)) - 8) mod 65536
   \<and> ((readU32 (serialize st) 4 = int (length (serialize st))) = (length (serialize st) < 65536))"
proof -
  have a: "(sz mod 65536 = sz) = (0 \<le> sz \<and> sz < 65536)"
    by auto
  have b: "(pool_size h p mod 65536 = pool_size h p) = (pool_size h p < 65536)"
    using pool_size_nonneg [of h p] by auto
  have c: "(int (length (serialize st)) mod 65536 = int (length (serialize st)))
           = (length (serialize st) < 65536)"
    by auto
  have 1: "take 4 (drop (length b + 4) (appendHeader b typ sz))
     = appendU16 (appendU16 [] (word_of_int (sz mod 65536))) 0
   \<and> take 4 (drop (length b + 4) (pool_append h p b))
     = appendU16 (appendU16 [] (word_of_int (pool_size h p mod 65536))) 0
   \<and> readU32 (appendHeader b typ sz) (length b + 4) = sz mod 65536
   \<and> readU32 (pool_append h p b) (length b + 4) = pool_size h p mod 65536
   \<and> ((readU32 (appendHeader b typ sz) (length b + 4) = sz) = (0 \<le> sz \<and> sz < 65536))
   \<and> int (length (pool_append h p b)) - int (length b) = pool_size h p
   \<and> ((readU32 (pool_append h p b) (length b + 4) = pool_size h p) = (pool_size h p < 65536))"
    by (simp only: size_field_bytes_appendHeader size_field_bytes_pool_append
        readU32_appendHeader readU32_pool_append a b length_pool_append) simp
  have 2: "readU32 (serialize st) 4 = int (length (serialize st)) mod 65536"
    "readU32 (serialize st) 12 = (int (length (serialize st)) - 8) mod 65536"
    using serialize_size_fields [of st] by simp_all
  have 3: "(readU32 (serialize st) 4 = int (length (serialize st))) = (length (serialize st) < 65536)"
    unfolding 2(1) by (rule c)
  show ?thesis
    using 1 2 3 by blast
qed

text \<open>
  Claim C1.  Whenever \<^verbatim>\<open>binaryXML\<close> returns bytes, they are the file-chunk header
  followed by the serialized sorted string pool and nothing else: their number is 8 plus the
  size of the pool.  No resource map chunk and none of the chunks collected in
  \<^verbatim>\<open>elements\<close> is written.
\<close>

theorem binaryXML_emits_header_and_pool_only:
  "binaryXML steps fin = Inr b \<Longrightarrow>
   \<exists>st h p. token_loop steps init_state = Inr st \<and> sortPool (pool st) = (h, p)
     \<and> b = appendHeader [] headerXML (8 + pool_size h p) @ pool_append h p []
     \<and> int (length b) = 8 + pool_size h p"
proof -
  assume a: "binaryXML steps fin = Inr b"
  then obtain st where st: "token_loop steps init_state = Inr st" and b: "b = serialize st"
    by (auto simp: binaryXML_def split: sum.splits decoder_end.splits)
  obtain h p where hp: "sortPool (pool st) = (h, p)"
    by (cases "sortPool (pool st)")
  show ?thesis
    using st hp serialize_eq [OF hp] b by blast
qed

lemma enc_empty: "encode_bstring [] = [0, 0, 0, 0]"
  by (simp add: encode_bstring_def utf16_Encode_def appendU16_def)

lemma enc_a: "encode_bstring ''a'' = [1, 0, 0x61, 0, 0, 0]"
  by (simp add: encode_bstring_def utf16_Encode_def appendU16_def Decode_ascii EncodeRune_def)

text \<open>
  For the document \<^verbatim>\<open><a/>\<close> the loop collects a start-element and an end-element
  chunk, and the 56 bytes returned are the header (type 0x0003, header size 8, size 56) and
  the pool of the two strings (48 bytes).
\<close>

theorem binaryXML_emits_header_and_pool_only_witness:
  "binaryXML self_closing EOF
     = Inr [3, 0, 8, 0, 56, 0, 0, 0,
            1, 0, 28, 0, 48, 0, 0, 0, 2, 0, 0, 0, 0, 0, 0, 0, 0, 0, 0, 0, 36, 0, 0, 0, 0, 0, 0, 0,
            0, 0, 0, 0, 4, 0, 0, 0,
            0, 0, 0, 0, 1, 0, 0x61, 0, 0, 0,
            0, 0]
   \<and> map_sum id elements (token_loop self_closing init_state)
       = Inr [BinStartElement 1 0 1 [], BinEndElement 2 0 1 []]"
proof -
  have 0: "line new_lineReader 0 = 1"
    using line_after_reads [of "[]" 0] by (simp add: newlines_before_def)
  have 1: "line (Read new_lineReader (''<a/>'' @ [CHR 0x0A])) 4 = 2"
    using line_after_reads [of "[''<a/>'' @ [CHR 0x0A]]" 4]
    by (simp add: newlines_before_def)
  have g1: "get [] ([], new_binStringPool)
            = Inr (0, [\<lparr>ind = 0, str = [], enc = encode_bstring []\<rparr>], \<lparr>pool_s = [0], pool_m = [[] \<mapsto> 0]\<rparr>)"
    by (subst get_new) (simp_all add: new_binStringPool_def)
  have g2: "get ''a'' ([\<lparr>ind = 0, str = [], enc = encode_bstring []\<rparr>], \<lparr>pool_s = [0], pool_m = [[] \<mapsto> 0]\<rparr>)
            = Inr (Suc 0, [\<lparr>ind = 0, str = [], enc = encode_bstring []\<rparr>,
                       \<lparr>ind = 1, str = ''a'', enc = encode_bstring ''a''\<rparr>],
                   \<lparr>pool_s = [0, Suc 0], pool_m = [[] \<mapsto> 0, ''a'' \<mapsto> Suc 0]\<rparr>)"
    by (subst get_new) simp_all
  have g3: "get [] ([\<lparr>ind = 0, str = [], enc = encode_bstring []\<rparr>,
                       \<lparr>ind = 1, str = ''a'', enc = encode_bstring ''a''\<rparr>],
                   \<lparr>pool_s = [0, Suc 0], pool_m = [[] \<mapsto> 0, ''a'' \<mapsto> Suc 0]\<rparr>)
           = Inr (0, [\<lparr>ind = 0, str = [], enc = encode_bstring []\<rparr>,
                       \<lparr>ind = 1, str = ''a'', enc = encode_bstring ''a''\<rparr>],
                   \<lparr>pool_s = [0, Suc 0], pool_m = [[] \<mapsto> 0, ''a'' \<mapsto> Suc 0]\<rparr>)"
    by (subst get_old) simp_all
  have g4: "get ''a'' ([\<lparr>ind = 0, str = [], enc = encode_bstring []\<rparr>,
                       \<lparr>ind = 1, str = ''a'', enc = encode_bstring ''a''\<rparr>],
                   \<lparr>pool_s = [0, Suc 0], pool_m = [[] \<mapsto> 0, ''a'' \<mapsto> Suc 0]\<rparr>)
           = Inr (Suc 0, [\<lparr>ind = 0, str = [], enc = encode_bstring []\<rparr>,
                       \<lparr>ind = 1, str = ''a'', enc = encode_bstring ''a''\<rparr>],
                   \<lparr>pool_s = [0, Suc 0], pool_m = [[] \<mapsto> 0, ''a'' \<mapsto> Suc 0]\<rparr>)"
    by (subst get_old) simp_all
  have t: "TrimSpace [CHR 0x0A] = []"
    by (simp add: TrimSpace_def space1_def)
  define st where "st = \<lparr>lr = Read new_lineReader (''<a/>'' @ [CHR 0x0A]),
       pool = ([\<lparr>ind = 0, str = [], enc = encode_bstring []\<rparr>,
                \<lparr>ind = 1, str = ''a'', enc = encode_bstring ''a''\<rparr>],
               \<lparr>pool_s = [0, Suc 0], pool_m = [[] \<mapsto> 0, ''a'' \<mapsto> Suc 0]\<rparr>),
       depth = 0, elements = [BinStartElement 1 0 1 [], BinEndElement 2 0 1 []],
       namespaceEnds = Map.empty\<rparr>"
  have tl: "token_loop self_closing init_state = Inr st"
    using 0 1 by (simp add: self_closing_def init_state_def g1 g2 g3 g4 t st_def)
  have sp: "sortPool (pool st) = pool st"
    by (simp add: sortPool_def insertionSort_def Len_def Less_def st_def)
  have bx: "binaryXML self_closing EOF = Inr (serialize st)"
    by (simp add: binaryXML_def tl)
  obtain st' h p where
    x: "token_loop self_closing init_state = Inr st'" "sortPool (pool st') = (h, p)"
       "serialize st = appendHeader [] headerXML (8 + pool_size h p) @ pool_append h p []"
    using binaryXML_emits_header_and_pool_only [OF bx] by blast
  have st': "st' = st" using x(1) tl by simp
  have hp: "h = fst (pool st)" "p = snd (pool st)" using x(2) sp st' by simp_all
  have "serialize st = [3, 0, 8, 0, 56, 0, 0, 0,
            1, 0, 28, 0, 48, 0, 0, 0, 2, 0, 0, 0, 0, 0, 0, 0, 0, 0, 0, 0, 36, 0, 0, 0, 0, 0, 0, 0,
            0, 0, 0, 0, 4, 0, 0, 0,
            0, 0, 0, 0, 1, 0, 0x61, 0, 0, 0,
            0, 0]"
    unfolding x(3) hp
    by (simp add: st_def appendHeader_eq pool_append_eq pool_size_def pool_offsets_def offsets_step_def
        headerXML_def headerStringPool_def stringPoolPreamble_def enc_empty enc_a appendU32_def)
  then show ?thesis
    using bx tl by (simp add: st_def)
qed

section \<open>Properties of the writer\<close>

text \<open>
  Claim C3.  \<^verbatim>\<open>Close\<close> returns a nil error and leaves the writer as it was, as does
  \<^verbatim>\<open>Create\<close>: after creating an entry and closing, the archive holds no file (so none
  of the three \<^verbatim>\<open>META-INF\<close> files), no central directory has been written, and the
  manifest list is empty.
\<close>

theorem Close_does_nothing:
  "Close w = (w, None)
   \<and> Create w nm = (w, None, None)
   \<and> (case Create zero_Writer ''classes.dex'' of (w1, sink, err1) \<Rightarrow>
        case Close w1 of (w2, err2) \<Rightarrow>
          err2 = None \<and> zip_files (zip_w w2) = [] \<and> zip_closed (zip_w w2) = False \<and> manifest w2 = [])"
  by (simp add: Close_def Create_def zero_Writer_def)

section \<open>Byte order and code point order of valid UTF-8\<close>

lemma mod_split: "m * k \<le> (x::nat) \<Longrightarrow> x < m * k + m \<Longrightarrow> x = m * k + x mod m"
proof -
  assume a: "m * k \<le> x" "x < m * k + m"
  have "x mod m = (m * k + (x - m * k)) mod m" using a by simp
  also have "\<dots> = (x - m * k) mod m" by (rule mod_mult_self4)
  also have "\<dots> = x - m * k" using a by simp
  finally show ?thesis using a by simp
qed

lemma lead2: "194 \<le> (x::nat) \<Longrightarrow> x \<le> 223 \<Longrightarrow> x = 192 + x mod 32"
  using mod_split [of 32 6 x] by simp
lemma cont64: "128 \<le> (x::nat) \<Longrightarrow> x \<le> 191 \<Longrightarrow> x = 128 + x mod 64"
  using mod_split [of 64 2 x] by simp
lemma lead3: "224 \<le> (x::nat) \<Longrightarrow> x \<le> 239 \<Longrightarrow> x = 224 + x mod 16"
  using mod_split [of 16 14 x] by simp
lemma lead4: "240 \<le> (x::nat) \<Longrightarrow> x \<le> 244 \<Longrightarrow> x = 240 + x mod 8"
  using mod_split [of 8 30 x] by simp

lemma Decode_invalid: "rune_size (of_char c) = 0 \<Longrightarrow> DecodeRuneInString (c # cs) = (RuneError, 1)"
  by (simp add: DecodeRuneInString_def)

lemma Decode_short: "Suc (length cs) < rune_size (of_char c) \<Longrightarrow> DecodeRuneInString (c # cs) = (RuneError, 1)"
  by (simp add: DecodeRuneInString_def)

lemma Decode1: "rune_size (of_char c) = 1 \<Longrightarrow> DecodeRuneInString (c # cs) = (int (of_char c), 1)"
  by (simp add: DecodeRuneInString_def)

lemma Decode2:
  "rune_size (of_char c) = 2 \<Longrightarrow>
   DecodeRuneInString (c # c1 # cs)
   = (if of_char c1 < accept_lo (of_char c) \<or> accept_hi (of_char c) < of_char c1 then (RuneError, 1)
      else (int ((of_char c mod 32) * 64 + of_char c1 mod 64), 2))"
  by (simp add: DecodeRuneInString_def)

lemma Decode3:
  "rune_size (of_char c) = 3 \<Longrightarrow>
   DecodeRuneInString (c # c1 # c2 # cs)
   = (if of_char c1 < accept_lo (of_char c) \<or> accept_hi (of_char c) < of_char c1 then (RuneError, 1)
      else if \<not> cont_byte (of_char c2) then (RuneError, 1)
      else (int ((of_char c mod 16) * 4096 + (of_char c1 mod 64) * 64 + of_char c2 mod 64), 3))"
  by (simp add: DecodeRuneInString_def)

lemma Decode4:
  "rune_size (of_char c) = 4 \<Longrightarrow>
   DecodeRuneInString (c # c1 # c2 # c3 # cs)
   = (if of_char c1 < accept_lo (of_char c) \<or> accept_hi (of_char c) < of_char c1 then (RuneError, 1)
      else if \<not> cont_byte (of_char c2) then (RuneError, 1)
      else if \<not> cont_byte (of_char c3) then (RuneError, 1)
      else (int ((of_char c mod 8) * 262144 + (of_char c1 mod 64) * 4096
                 + (of_char c2 mod 64) * 64 + of_char c3 mod 64), 4))"
  by (simp add: DecodeRuneInString_def)

lemma rune_size_cases:
  "rune_size x = 0 \<or> (rune_size x = 1 \<and> x < 0x80) \<or> (rune_size x = 2 \<and> 0xC2 \<le> x \<and> x \<le> 0xDF)
   \<or> (rune_size x = 3 \<and> 0xE0 \<le> x \<and> x \<le> 0xEF) \<or> (rune_size x = 4 \<and> 0xF0 \<le> x \<and> x \<le> 0xF4)"
  by (simp add: rune_size_def)

lemma Decode_valid_cases:
  assumes "DecodeRuneInString (c # cs) = (r, n)" "\<not> (r = RuneError \<and> n = 1)"
  shows "(n = 1 \<and> of_char c < (0x80::nat) \<and> r = int (of_char c))
   \<or> (\<exists>c1 cs'. n = 2 \<and> cs = c1 # cs' \<and> 0xC2 \<le> (of_char c :: nat) \<and> of_char c \<le> (0xDF::nat)
         \<and> 0x80 \<le> (of_char c1 :: nat) \<and> of_char c1 \<le> (0xBF::nat)
         \<and> int (of_char c * 64 + of_char c1) = r + 12416)
   \<or> (\<exists>c1 c2 cs'. n = 3 \<and> cs = c1 # c2 # cs' \<and> 0xE0 \<le> (of_char c :: nat) \<and> of_char c \<le> (0xEF::nat)
         \<and> 0x80 \<le> (of_char c1 :: nat) \<and> of_char c1 \<le> (0xBF::nat)
         \<and> (of_char c = (0xE0::nat) \<longrightarrow> 0xA0 \<le> (of_char c1 :: nat))
         \<and> 0x80 \<le> (of_char c2 :: nat) \<and> of_char c2 \<le> (0xBF::nat)
         \<and> int (of_char c * 4096 + of_char c1 * 64 + of_char c2) = r + 925824)
   \<or> (\<exists>c1 c2 c3 cs'. n = 4 \<and> cs = c1 # c2 # c3 # cs' \<and> 0xF0 \<le> (of_char c :: nat) \<and> of_char c \<le> (0xF4::nat)
         \<and> 0x80 \<le> (of_char c1 :: nat) \<and> of_char c1 \<le> (0xBF::nat)
         \<and> (of_char c = (0xF0::nat) \<longrightarrow> 0x90 \<le> (of_char c1 :: nat))
         \<and> 0x80 \<le> (of_char c2 :: nat) \<and> of_char c2 \<le> (0xBF::nat)
         \<and> 0x80 \<le> (of_char c3 :: nat) \<and> of_char c3 \<le> (0xBF::nat)
         \<and> int (of_char c * 262144 + of_char c1 * 4096 + of_char c2 * 64 + of_char c3)
             = r + 63447168)"
proof -
  define s0 :: nat where "s0 = of_char c"
  note rc = rune_size_cases [of s0]
  have short: "Suc (length cs) < rune_size s0 \<Longrightarrow> False"
    using Decode_short [of cs c] assms by (simp add: s0_def)
  consider (z) "rune_size s0 = 0" | (one) "rune_size s0 = 1" "s0 < 0x80"
    | (two) "rune_size s0 = 2" "0xC2 \<le> s0" "s0 \<le> 0xDF"
    | (three) "rune_size s0 = 3" "0xE0 \<le> s0" "s0 \<le> 0xEF"
    | (four) "rune_size s0 = 4" "0xF0 \<le> s0" "s0 \<le> 0xF4"
    using rc by (elim disjE conjE) auto
  then show ?thesis
  proof cases
    case z
    then show ?thesis using assms Decode_invalid [of c cs] by (simp add: s0_def)
  next
    case one
    then show ?thesis using assms Decode1 [of c cs] by (simp add: s0_def)
  next
    case two
    obtain c1 cs' where cs: "cs = c1 # cs'"
      using short two(1) by (cases cs) auto
    define s1 :: nat where "s1 = of_char c1"
    have al: "accept_lo s0 = 0x80" "accept_hi s0 = 0xBF"
      using two by (simp_all add: accept_lo_def accept_hi_def)
    have d: "DecodeRuneInString (c # c1 # cs')
             = (if s1 < 0x80 \<or> 0xBF < s1 then (RuneError, 1) else (int (s0 mod 32 * 64 + s1 mod 64), 2))"
      using Decode2 [of c c1 cs'] two(1) al by (simp add: s0_def s1_def)
    have ok: "0x80 \<le> s1" "s1 \<le> 0xBF"
      using assms d cs by (auto split: if_splits)
    have r: "r = int (s0 mod 32 * 64 + s1 mod 64)" and n: "n = 2"
      using assms(1) d cs ok by simp_all
    have "s0 = 192 + s0 mod 32" "s1 = 128 + s1 mod 64"
      using two ok lead2 [of s0] cont64 [of s1] by simp_all
    then have e: "int (s0 * 64 + s1) = r + 12416"
      unfolding r by linarith
    have "\<exists>c1 cs'. n = 2 \<and> cs = c1 # cs' \<and> 0xC2 \<le> (of_char c :: nat) \<and> of_char c \<le> (0xDF::nat)
         \<and> 0x80 \<le> (of_char c1 :: nat) \<and> of_char c1 \<le> (0xBF::nat)
         \<and> int (of_char c * 64 + of_char c1) = r + 12416"
      using two ok e n cs by (intro exI [of _ c1] exI [of _ cs']) (simp add: s0_def s1_def)
    then show ?thesis by blast
  next
    case three
    obtain c1 c2 cs' where cs: "cs = c1 # c2 # cs'"
      using short three(1) by (cases cs; cases "tl cs") auto
    define s1 :: nat where "s1 = of_char c1"
    define s2 :: nat where "s2 = of_char c2"
    have d: "DecodeRuneInString (c # c1 # c2 # cs')
             = (if s1 < accept_lo s0 \<or> accept_hi s0 < s1 then (RuneError, 1)
                else if \<not> cont_byte s2 then (RuneError, 1)
                else (int (s0 mod 16 * 4096 + s1 mod 64 * 64 + s2 mod 64), 3))"
      using Decode3 [of c c1 c2 cs'] three(1) by (simp add: s0_def s1_def s2_def)
    have ok0: "accept_lo s0 \<le> s1" "s1 \<le> accept_hi s0" "cont_byte s2"
      using assms d cs by (auto split: if_splits)
    have ok: "0x80 \<le> s1" "s1 \<le> 0xBF" "s0 = 0xE0 \<longrightarrow> 0xA0 \<le> s1" "0x80 \<le> s2" "s2 \<le> 0xBF"
      using ok0 by (auto simp: accept_lo_def accept_hi_def cont_byte_def split: if_splits)
    have r: "r = int (s0 mod 16 * 4096 + s1 mod 64 * 64 + s2 mod 64)" and n: "n = 3"
      using assms(1) d cs ok0 by simp_all
    have "s0 = 224 + s0 mod 16" "s1 = 128 + s1 mod 64" "s2 = 128 + s2 mod 64"
      using three ok lead3 [of s0] cont64 [of s1] cont64 [of s2] by simp_all
    then have e: "int (s0 * 4096 + s1 * 64 + s2) = r + 925824"
      unfolding r by linarith
    have "\<exists>c1 c2 cs'. n = 3 \<and> cs = c1 # c2 # cs' \<and> 0xE0 \<le> (of_char c :: nat) \<and> of_char c \<le> (0xEF::nat)
         \<and> 0x80 \<le> (of_char c1 :: nat) \<and> of_char c1 \<le> (0xBF::nat)
         \<and> (of_char c = (0xE0::nat) \<longrightarrow> 0xA0 \<le> (of_char c1 :: nat))
         \<and> 0x80 \<le> (of_char c2 :: nat) \<and> of_char c2 \<le> (0xBF::nat)
         \<and> int (of_char c * 4096 + of_char c1 * 64 + of_char c2) = r + 925824"
      using three ok e n cs
      by (intro exI [of _ c1] exI [of _ c2] exI [of _ cs']) (simp add: s0_def s1_def s2_def)
    then show ?thesis by blast
  next
    case four
    obtain c1 c2 c3 cs' where cs: "cs = c1 # c2 # c3 # cs'"
      using short four(1) by (cases cs; cases "tl cs"; cases "tl (tl cs)") auto
    define s1 :: nat where "s1 = of_char c1"
    define s2 :: nat where "s2 = of_char c2"
    define s3 :: nat where "s3 = of_char c3"
    have d: "DecodeRuneInString (c # c1 # c2 # c3 # cs')
             = (if s1 < accept_lo s0 \<or> accept_hi s0 < s1 then (RuneError, 1)
                else if \<not> cont_byte s2 then (RuneError, 1)
                else if \<not> cont_byte s3 then (RuneError, 1)
                else (int (s0 mod 8 * 262144 + s1 mod 64 * 4096 + s2 mod 64 * 64 + s3 mod 64), 4))"
      using Decode4 [of c c1 c2 c3 cs'] four(1) by (simp add: s0_def s1_def s2_def s3_def)
    have ok0: "accept_lo s0 \<le> s1" "s1 \<le> accept_hi s0" "cont_byte s2" "cont_byte s3"
      using assms d cs by (auto split: if_splits)
    have ok: "0x80 \<le> s1" "s1 \<le> 0xBF" "s0 = 0xF0 \<longrightarrow> 0x90 \<le> s1" "0x80 \<le> s2" "s2 \<le> 0xBF"
      "0x80 \<le> s3" "s3 \<le> 0xBF"
      using ok0 by (auto simp: accept_lo_def accept_hi_def cont_byte_def split: if_splits)
    have r: "r = int (s0 mod 8 * 262144 + s1 mod 64 * 4096 + s2 mod 64 * 64 + s3 mod 64)" and n: "n = 4"
      using assms(1) d cs ok0 by simp_all
    have "s0 = 240 + s0 mod 8" "s1 = 128 + s1 mod 64" "s2 = 128 + s2 mod 64" "s3 = 128 + s3 mod 64"
      using four ok lead4 [of s0] cont64 [of s1] cont64 [of s2] cont64 [of s3] by simp_all
    then have e: "int (s0 * 262144 + s1 * 4096 + s2 * 64 + s3) = r + 63447168"
      unfolding r by linarith
    have "\<exists>c1 c2 c3 cs'. n = 4 \<and> cs = c1 # c2 # c3 # cs' \<and> 0xF0 \<le> (of_char c :: nat) \<and> of_char c \<le> (0xF4::nat)
         \<and> 0x80 \<le> (of_char c1 :: nat) \<and> of_char c1 \<le> (0xBF::nat)
         \<and> (of_char c = (0xF0::nat) \<longrightarrow> 0x90 \<le> (of_char c1 :: nat))
         \<and> 0x80 \<le> (of_char c2 :: nat) \<and> of_char c2 \<le> (0xBF::nat)
         \<and> 0x80 \<le> (of_char c3 :: nat) \<and> of_char c3 \<le> (0xBF::nat)
         \<and> int (of_char c * 262144 + of_char c1 * 4096 + of_char c2 * 64 + of_char c3)
             = r + 63447168"
      using four ok e n cs
      by (intro exI [of _ c1] exI [of _ c2] exI [of _ c3] exI [of _ cs']) (simp add: s0_def s1_def s2_def s3_def)
    then show ?thesis by blast
  qed
qed

lemma char_less_iff: "(c < d) = ((of_char c :: nat) < of_char d)"
  by (simp add: less_char_def)

lemma char_eq_iff: "(c = d) = ((of_char c :: nat) = of_char d)"
  by simp

lemma append_less_cancel: "(xs @ ys < xs @ zs) = (ys < (zs :: 'a :: linorder list))"
  by (induction xs) simp_all

lemma lex2:
  fixes s0 s1 t0 t1 :: nat
  assumes "128 \<le> s1" "s1 \<le> 191" "128 \<le> t1" "t1 \<le> 191" "s0 * 64 + s1 < t0 * 64 + t1"
  shows "s0 < t0 \<or> (s0 = t0 \<and> s1 < t1)"
proof (cases "s0 < t0")
  case False
  have "s0 = t0" using False assms by linarith
  moreover have "s1 < t1" using \<open>s0 = t0\<close> assms by linarith
  ultimately show ?thesis by simp
qed simp

lemma eq2:
  fixes s0 s1 t0 t1 :: nat
  assumes "128 \<le> s1" "s1 \<le> 191" "128 \<le> t1" "t1 \<le> 191" "s0 * 64 + s1 = t0 * 64 + t1"
  shows "s0 = t0 \<and> s1 = t1"
proof -
  have "s0 = t0" using assms by linarith
  moreover have "s1 = t1" using \<open>s0 = t0\<close> assms by linarith
  ultimately show ?thesis by simp
qed

lemma lex3:
  fixes s0 s1 s2 t0 t1 t2 :: nat
  assumes "128 \<le> s1" "s1 \<le> 191" "128 \<le> t1" "t1 \<le> 191"
    "128 \<le> s2" "s2 \<le> 191" "128 \<le> t2" "t2 \<le> 191"
    "s0 * 4096 + s1 * 64 + s2 < t0 * 4096 + t1 * 64 + t2"
  shows "s0 < t0 \<or> (s0 = t0 \<and> (s1 < t1 \<or> (s1 = t1 \<and> s2 < t2)))"
proof (cases "s0 < t0")
  case False
  have e: "s0 = t0" using False assms by linarith
  have "s1 * 64 + s2 < t1 * 64 + t2" using e assms by linarith
  from lex2 [OF assms(5-8) this] show ?thesis using e by simp
qed simp

lemma eq3:
  fixes s0 s1 s2 t0 t1 t2 :: nat
  assumes "128 \<le> s1" "s1 \<le> 191" "128 \<le> t1" "t1 \<le> 191"
    "128 \<le> s2" "s2 \<le> 191" "128 \<le> t2" "t2 \<le> 191"
    "s0 * 4096 + s1 * 64 + s2 = t0 * 4096 + t1 * 64 + t2"
  shows "s0 = t0 \<and> s1 = t1 \<and> s2 = t2"
proof -
  have e: "s0 = t0" using assms by linarith
  have "s1 * 64 + s2 = t1 * 64 + t2" using e assms by linarith
  from eq2 [OF assms(5-8) this] show ?thesis using e by simp
qed

lemma lex4:
  fixes s0 s1 s2 s3 t0 t1 t2 t3 :: nat
  assumes "128 \<le> s1" "s1 \<le> 191" "128 \<le> t1" "t1 \<le> 191"
    "128 \<le> s2" "s2 \<le> 191" "128 \<le> t2" "t2 \<le> 191"
    "128 \<le> s3" "s3 \<le> 191" "128 \<le> t3" "t3 \<le> 191"
    "s0 * 262144 + s1 * 4096 + s2 * 64 + s3 < t0 * 262144 + t1 * 4096 + t2 * 64 + t3"
  shows "s0 < t0 \<or> (s0 = t0 \<and> (s1 < t1 \<or> (s1 = t1 \<and> (s2 < t2 \<or> (s2 = t2 \<and> s3 < t3)))))"
proof (cases "s0 < t0")
  case False
  have e: "s0 = t0" using False assms by linarith
  have "s1 * 4096 + s2 * 64 + s3 < t1 * 4096 + t2 * 64 + t3" using e assms by linarith
  from lex3 [OF assms(5-12) this] show ?thesis using e by simp
qed simp

lemma eq4:
  fixes s0 s1 s2 s3 t0 t1 t2 t3 :: nat
  assumes "128 \<le> s1" "s1 \<le> 191" "128 \<le> t1" "t1 \<le> 191"
    "128 \<le> s2" "s2 \<le> 191" "128 \<le> t2" "t2 \<le> 191"
    "128 \<le> s3" "s3 \<le> 191" "128 \<le> t3" "t3 \<le> 191"
    "s0 * 262144 + s1 * 4096 + s2 * 64 + s3 = t0 * 262144 + t1 * 4096 + t2 * 64 + t3"
  shows "s0 = t0 \<and> s1 = t1 \<and> s2 = t2 \<and> s3 = t3"
proof -
  have e: "s0 = t0" using assms by linarith
  have "s1 * 4096 + s2 * 64 + s3 = t1 * 4096 + t2 * 64 + t3" using e assms by linarith
  from eq3 [OF assms(5-12) this] show ?thesis using e by simp
qed


lemma Decode_width_bounds:
  assumes "DecodeRuneInString (c # cs) = (r, n)" "\<not> (r = RuneError \<and> n = 1)"
  shows "(n = 1 \<and> of_char c < (128::nat) \<and> r < 128)
       \<or> (n = 2 \<and> 194 \<le> (of_char c :: nat) \<and> of_char c \<le> (223::nat) \<and> 128 \<le> r \<and> r < 2048)
       \<or> (n = 3 \<and> 224 \<le> (of_char c :: nat) \<and> of_char c \<le> (239::nat) \<and> 2048 \<le> r \<and> r < 65536)
       \<or> (n = 4 \<and> 240 \<le> (of_char c :: nat) \<and> of_char c \<le> (244::nat) \<and> 65536 \<le> r)"
proof -
  define s0 :: nat where "s0 = of_char c"
  from Decode_valid_cases [OF assms, folded s0_def]
  consider (one) "n = 1" "s0 < 128" "r = int s0"
    | (two) s1 :: nat where "n = 2" "194 \<le> s0" "s0 \<le> 223" "128 \<le> s1" "s1 \<le> 191"
        "int (s0 * 64 + s1) = r + 12416"
    | (three) s1 s2 :: nat where "n = 3" "224 \<le> s0" "s0 \<le> 239" "128 \<le> s1" "s1 \<le> 191"
        "s0 = 224 \<longrightarrow> 160 \<le> s1" "128 \<le> s2" "s2 \<le> 191"
        "int (s0 * 4096 + s1 * 64 + s2) = r + 925824"
    | (four) s1 s2 s3 :: nat where "n = 4" "240 \<le> s0" "s0 \<le> 244" "128 \<le> s1" "s1 \<le> 191"
        "s0 = 240 \<longrightarrow> 144 \<le> s1" "128 \<le> s2" "s2 \<le> 191" "128 \<le> s3" "s3 \<le> 191"
        "int (s0 * 262144 + s1 * 4096 + s2 * 64 + s3) = r + 63447168"
    by (elim disjE conjE exE) blast+
  then have "(n = 1 \<and> s0 < 128 \<and> r < 128)
       \<or> (n = 2 \<and> 194 \<le> s0 \<and> s0 \<le> 223 \<and> 128 \<le> r \<and> r < 2048)
       \<or> (n = 3 \<and> 224 \<le> s0 \<and> s0 \<le> 239 \<and> 2048 \<le> r \<and> r < 65536)
       \<or> (n = 4 \<and> 240 \<le> s0 \<and> s0 \<le> 244 \<and> 65536 \<le> r)"
  proof cases
    case one
    then show ?thesis by simp
  next
    case two
    have "128 \<le> r" "r < 2048" using two by linarith+
    then show ?thesis using two by simp
  next
    case three
    have u: "r < 65536" using three by linarith
    have "2048 \<le> r"
    proof (cases "s0 = 224")
      case True
      then have "160 \<le> s1" using three by simp
      then show ?thesis using three True by linarith
    next
      case False
      then have "225 \<le> s0" using three by simp
      then show ?thesis using three by linarith
    qed
    then show ?thesis using three u by simp
  next
    case four
    have "65536 \<le> r"
    proof (cases "s0 = 240")
      case True
      then have "144 \<le> s1" using four by simp
      then show ?thesis using four True by linarith
    next
      case False
      then have "241 \<le> s0" using four by simp
      then show ?thesis using four by linarith
    qed
    then show ?thesis using four by simp
  qed
  then show ?thesis by (simp add: s0_def)
qed


lemma Decode_view [consumes 2, case_names one two three four]:
  assumes "DecodeRuneInString (c # cs) = (r, n)" "\<not> (r = RuneError \<and> n = 1)"
  obtains (one) "n = 1" "of_char c < (128::nat)" "r = int (of_char c)"
    | (two) c1 cs' where "n = 2" "cs = c1 # cs'"
        "128 \<le> (of_char c1 :: nat)" "of_char c1 \<le> (191 :: nat)"
        "int (of_char c * 64 + of_char c1) = r + 12416"
    | (three) c1 c2 cs' where "n = 3" "cs = c1 # c2 # cs'"
        "128 \<le> (of_char c1 :: nat)" "of_char c1 \<le> (191 :: nat)"
        "128 \<le> (of_char c2 :: nat)" "of_char c2 \<le> (191 :: nat)"
        "int (of_char c * 4096 + of_char c1 * 64 + of_char c2) = r + 925824"
    | (four) c1 c2 c3 cs' where "n = 4" "cs = c1 # c2 # c3 # cs'"
        "128 \<le> (of_char c1 :: nat)" "of_char c1 \<le> (191 :: nat)"
        "128 \<le> (of_char c2 :: nat)" "of_char c2 \<le> (191 :: nat)"
        "128 \<le> (of_char c3 :: nat)" "of_char c3 \<le> (191 :: nat)"
        "int (of_char c * 262144 + of_char c1 * 4096 + of_char c2 * 64 + of_char c3) = r + 63447168"
  using Decode_valid_cases [OF assms]
  by (elim disjE conjE exE) blast+

lemma head_compare:
  assumes a: "DecodeRuneInString (c # cs) = (r1, n1)" and va: "\<not> (r1 = RuneError \<and> n1 = 1)"
    and b: "DecodeRuneInString (d # ds) = (r2, n2)" and vb: "\<not> (r2 = RuneError \<and> n2 = 1)"
  shows "(r1 < r2 \<longrightarrow> c # cs < d # ds)
       \<and> (r1 = r2 \<longrightarrow> n1 = n2 \<and> take n1 (c # cs) = take n1 (d # ds))"
proof (cases "n1 = n2")
  case False
  note wa = Decode_width_bounds [OF a va]
  note wb = Decode_width_bounds [OF b vb]
  have ne: "r1 \<noteq> r2" using wa wb False by (elim disjE conjE) simp_all
  have "(of_char c :: nat) < of_char d" if "r1 < r2"
    using wa wb False that by (elim disjE conjE) simp_all
  then have "c # cs < d # ds" if "r1 < r2"
    using that by (simp add: char_less_iff)
  then show ?thesis using ne by simp
next
  case True
  from a va show ?thesis
  proof (cases rule: Decode_view)
    case one
    from b vb have "of_char d < (128::nat)" "r2 = int (of_char d)"
      using one(1) True by (cases rule: Decode_view; simp)+
    then show ?thesis
      using one True by (auto simp: char_less_iff)
  next
    case (two c1 cs')
    from b vb obtain d1 ds' where v: "ds = d1 # ds'"
        "128 \<le> (of_char d1 :: nat)" "of_char d1 \<le> (191 :: nat)"
        "int (of_char d * 64 + of_char d1) = r2 + 12416"
      using two(1) True by (cases rule: Decode_view) simp_all
    have lt: "(r1 < r2) = ((of_char c :: nat) * 64 + of_char c1 < of_char d * 64 + of_char d1)"
      using two(5) v(4) by linarith
    have eq: "(r1 = r2) = ((of_char c :: nat) * 64 + of_char c1 = of_char d * 64 + of_char d1)"
      using two(5) v(4) by linarith
    have 1: "c # cs < d # ds" if "r1 < r2"
    proof -
      have "(of_char c :: nat) * 64 + of_char c1 < of_char d * 64 + of_char d1"
        using that lt by simp
      from lex2 [OF two(3,4) v(2,3) this] show ?thesis
        by (auto simp: two(2) v(1) char_less_iff)
    qed
    have 2: "take n1 (c # cs) = take n1 (d # ds)" if "r1 = r2"
    proof -
      have "(of_char c :: nat) * 64 + of_char c1 = of_char d * 64 + of_char d1"
        using that eq by simp
      from eq2 [OF two(3,4) v(2,3) this] show ?thesis
        by (simp add: two(1,2) v(1) numeral_2_eq_2)
    qed
    show ?thesis using 1 2 True by simp
  next
    case (three c1 c2 cs')
    from b vb obtain d1 d2 ds' where v: "ds = d1 # d2 # ds'"
        "128 \<le> (of_char d1 :: nat)" "of_char d1 \<le> (191 :: nat)"
        "128 \<le> (of_char d2 :: nat)" "of_char d2 \<le> (191 :: nat)"
        "int (of_char d * 4096 + of_char d1 * 64 + of_char d2) = r2 + 925824"
      using three(1) True by (cases rule: Decode_view) simp_all
    have lt: "(r1 < r2) = ((of_char c :: nat) * 4096 + of_char c1 * 64 + of_char c2
                            < of_char d * 4096 + of_char d1 * 64 + of_char d2)"
      using three(7) v(6) by linarith
    have eq: "(r1 = r2) = ((of_char c :: nat) * 4096 + of_char c1 * 64 + of_char c2
                            = of_char d * 4096 + of_char d1 * 64 + of_char d2)"
      using three(7) v(6) by linarith
    have 1: "c # cs < d # ds" if "r1 < r2"
    proof -
      have "(of_char c :: nat) * 4096 + of_char c1 * 64 + of_char c2
              < of_char d * 4096 + of_char d1 * 64 + of_char d2"
        using that lt by simp
      from lex3 [OF three(3,4) v(2,3) three(5,6) v(4,5) this] show ?thesis
        by (auto simp: three(2) v(1) char_less_iff)
    qed
    have 2: "take n1 (c # cs) = take n1 (d # ds)" if "r1 = r2"
    proof -
      have "(of_char c :: nat) * 4096 + of_char c1 * 64 + of_char c2
              = of_char d * 4096 + of_char d1 * 64 + of_char d2"
        using that eq by simp
      from eq3 [OF three(3,4) v(2,3) three(5,6) v(4,5) this] show ?thesis
        by (simp add: three(1,2) v(1) numeral_3_eq_3)
    qed
    show ?thesis using 1 2 True by simp
  next
    case (four c1 c2 c3 cs')
    from b vb obtain d1 d2 d3 ds' where v: "ds = d1 # d2 # d3 # ds'"
        "128 \<le> (of_char d1 :: nat)" "of_char d1 \<le> (191 :: nat)"
        "128 \<le> (of_char d2 :: nat)" "of_char d2 \<le> (191 :: nat)"
        "128 \<le> (of_char d3 :: nat)" "of_char d3 \<le> (191 :: nat)"
        "int (of_char d * 262144 + of_char d1 * 4096 + of_char d2 * 64 + of_char d3) = r2 + 63447168"
      using four(1) True by (cases rule: Decode_view) simp_all
    have lt: "(r1 < r2) = ((of_char c :: nat) * 262144 + of_char c1 * 4096 + of_char c2 * 64 + of_char c3
                            < of_char d * 262144 + of_char d1 * 4096 + of_char d2 * 64 + of_char d3)"
      using four(9) v(8) by linarith
    have eq: "(r1 = r2) = ((of_char c :: nat) * 262144 + of_char c1 * 4096 + of_char c2 * 64 + of_char c3
                            = of_char d * 262144 + of_char d1 * 4096 + of_char d2 * 64 + of_char d3)"
      using four(9) v(8) by linarith
    have 1: "c # cs < d # ds" if "r1 < r2"
    proof -
      have "(of_char c :: nat) * 262144 + of_char c1 * 4096 + of_char c2 * 64 + of_char c3
              < of_char d * 262144 + of_char d1 * 4096 + of_char d2 * 64 + of_char d3"
        using that lt by simp
      from lex4 [OF four(3,4) v(2,3) four(5,6) v(4,5) four(7,8) v(6,7) this] show ?thesis
        by (auto simp: four(2) v(1) char_less_iff)
    qed
    have 2: "take n1 (c # cs) = take n1 (d # ds)" if "r1 = r2"
    proof -
      have "(of_char c :: nat) * 262144 + of_char c1 * 4096 + of_char c2 * 64 + of_char c3
              = of_char d * 262144 + of_char d1 * 4096 + of_char d2 * 64 + of_char d3"
        using that eq by simp
      from eq4 [OF four(3,4) v(2,3) four(5,6) v(4,5) four(7,8) v(6,7) this] show ?thesis
        by (simp add: four(1,2) v(1) eval_nat_numeral)
    qed
    show ?thesis using 1 2 True by simp
  qed
qed

lemma runes_Cons: "DecodeRuneInString (c # cs) = (r, n) \<Longrightarrow> runes (c # cs) = r # runes (drop (n - 1) cs)"
  by simp

lemma runes_Nil_iff: "(runes a = []) = (a = [])"
  by (cases a) (simp_all add: case_prod_unfold Let_def)

lemma bytewise_order_is_rune_order:
  "ValidString a \<Longrightarrow> ValidString b \<Longrightarrow> (a < b) = (runes a < runes b)"
proof (induction "length a" arbitrary: a b rule: less_induct)
  case less
  show ?case
  proof (cases a)
    case Nil
    have "([] < b) = (b \<noteq> [])" by (cases b) simp_all
    moreover have "([] < runes b) = (runes b \<noteq> [])" by (cases "runes b") simp_all
    ultimately show ?thesis using Nil by (simp add: runes_Nil_iff)
  next
    case a: (Cons c cs)
    show ?thesis
    proof (cases b)
      case Nil
      then show ?thesis by simp
    next
      case b: (Cons d ds)
      obtain r1 n1 where d1: "DecodeRuneInString (c # cs) = (r1, n1)"
        by (cases "DecodeRuneInString (c # cs)")
      obtain r2 n2 where d2: "DecodeRuneInString (d # ds) = (r2, n2)"
        by (cases "DecodeRuneInString (d # ds)")
      have v1: "\<not> (r1 = RuneError \<and> n1 = 1)" and t1: "ValidString (drop (n1 - 1) cs)"
        using less.prems(1) d1 by (simp_all add: a)
      have v2: "\<not> (r2 = RuneError \<and> n2 = 1)" and t2: "ValidString (drop (n2 - 1) ds)"
        using less.prems(2) d2 by (simp_all add: b)
      note hc = head_compare [OF d1 v1 d2 v2]
      note hc' = head_compare [OF d2 v2 d1 v1]
      have ra: "runes a = r1 # runes (drop (n1 - 1) cs)" using runes_Cons [OF d1] a by simp
      have rb: "runes b = r2 # runes (drop (n2 - 1) ds)" using runes_Cons [OF d2] b by simp
      consider "r1 < r2" | "r2 < r1" | "r1 = r2" by linarith
      then show ?thesis
      proof cases
        case 1
        then have "a < b" using hc a b by simp
        then show ?thesis using 1 ra rb by simp
      next
        case 2
        then have "b < a" using hc' a b by simp
        then have "\<not> a < b" by simp
        then show ?thesis using 2 ra rb by simp
      next
        case 3
        then have "n1 = n2 \<and> take n1 (c # cs) = take n1 (d # ds)"
          using hc by blast
        then have n: "n1 = n2" and tk: "take n1 (c # cs) = take n1 (d # ds)"
          by blast+
        have n1: "1 \<le> n1" using Decode_width_bounds [OF d1 v1] by auto
        have dr: "drop k (x # xs) = drop (k - 1) xs" if "1 \<le> k" for k and x :: char and xs
          using that by (cases k) simp_all
        have da: "drop n1 (c # cs) = drop (n1 - 1) cs" by (rule dr [OF n1])
        have db: "drop n1 (d # ds) = drop (n2 - 1) ds" unfolding n [symmetric] by (rule dr [OF n1])
        have "(a < b) = (take n1 (c # cs) @ drop n1 (c # cs) < take n1 (d # ds) @ drop n1 (d # ds))"
          unfolding append_take_drop_id by (simp add: a b)
        also have "\<dots> = (drop (n1 - 1) cs < drop (n2 - 1) ds)"
          unfolding tk append_less_cancel da db ..
        also have "\<dots> = (runes (drop (n1 - 1) cs) < runes (drop (n2 - 1) ds))"
          by (rule less.hyps [OF _ t1 t2]) (simp add: a)
        also have "\<dots> = (runes a < runes b)"
          using 3 ra rb by simp
        finally show ?thesis .
      qed
    qed
  qed
qed

section \<open>Properties of the sorted pool\<close>

lemma Less_strs:
  "i < Len hp \<Longrightarrow> j < Len hp \<Longrightarrow> Less i j hp = (pool_strs hp ! i < pool_strs hp ! j)"
  by (cases hp) (simp add: Less_def Len_def pool_strs_def)

lemma Len_strs: "length (pool_strs hp) = Len hp"
  by (simp add: pool_strs_def Len_def)

lemma Swap_sort_inv:
  assumes inv: "sort_inv hp" and i: "i < Len hp" and j: "j < Len hp" and ne: "i \<noteq> j"
  shows "sort_inv (Swap i j hp) \<and> pool_strs (Swap i j hp) = swap_list i j (pool_strs hp)
         \<and> Len (Swap i j hp) = Len hp"
proof -
  obtain h p where hp: "hp = (h, p)" by (cases hp)
  define s where "s = pool_s p"
  define s1 where "s1 = s[i := s ! j, j := s ! i]"
  define ai where "ai = s ! j"
  define aj where "aj = s ! i"
  define h1 where "h1 = h[ai := (h ! ai)\<lparr>ind := ind (h ! aj)\<rparr>]"
  define h2 where "h2 = h1[aj := (h1 ! aj)\<lparr>ind := ind (h ! ai)\<rparr>]"
  have il: "i < length s" and jl: "j < length s"
    using i j by (simp_all add: hp Len_def s_def)
  have d: "distinct s" and rng: "\<forall>a \<in> set s. a < length h"
    and ix: "\<forall>k < length s. ind (h ! (s ! k)) = of_nat k"
    using inv by (simp_all add: sort_inv_def hp s_def)
  have s1i: "s1 ! i = ai" and s1j: "s1 ! j = aj"
    using il jl ne by (simp_all add: s1_def ai_def aj_def)
  have sw: "Swap i j hp = (h2, p\<lparr>pool_s := s1\<rparr>)"
    unfolding hp Swap_def Let_def prod.case
    by (simp add: h2_def h1_def s1i [unfolded s1_def s_def] s1j [unfolded s1_def s_def] s1_def s_def ai_def aj_def)
  have aine: "ai \<noteq> aj"
    using d il jl ne by (simp add: ai_def aj_def nth_eq_iff_index_eq)
  have ail: "ai < length h" and ajl: "aj < length h"
    using rng il jl by (simp_all add: ai_def aj_def)
  have len: "length h2 = length h" by (simp add: h2_def h1_def)
  have strs: "str (h2 ! a) = str (h ! a)" for a
    by (cases "a = aj"; cases "a = ai") (simp_all add: h2_def h1_def ail ajl)
  have indi: "ind (h2 ! ai) = ind (h ! aj)"
    using aine ail ajl by (simp add: h2_def h1_def)
  have indj: "ind (h2 ! aj) = ind (h ! ai)"
    using aine ail ajl by (simp add: h2_def h1_def)
  have other: "h2 ! a = h ! a" if "a \<noteq> ai" "a \<noteq> aj" for a
    using that by (simp add: h2_def h1_def)
  have ls1: "length s1 = length s" by (simp add: s1_def)
  have d1: "distinct s1"
    unfolding s1_def using distinct_swap [OF il jl] d by simp
  have set1: "set s1 = set s"
    unfolding s1_def using set_swap [OF il jl] by simp
  have ix1: "ind (h2 ! (s1 ! k)) = of_nat k" if k: "k < length s1" for k
  proof -
    consider "k = i" | "k = j" | "k \<noteq> i" "k \<noteq> j" by blast
    then show ?thesis
    proof cases
      case 1
      then show ?thesis using s1i indi ix il by (simp add: aj_def)
    next
      case 2
      then show ?thesis using s1j indj ix jl by (simp add: ai_def)
    next
      case 3
      have e: "s1 ! k = s ! k" using 3 by (simp add: s1_def)
      have "s ! k \<noteq> ai" "s ! k \<noteq> aj"
        using d k 3 il jl by (simp_all add: ai_def aj_def ls1 nth_eq_iff_index_eq)
      then show ?thesis using other e ix k by (simp add: ls1)
    qed
  qed
  have inv1: "sort_inv (h2, p\<lparr>pool_s := s1\<rparr>)"
    using d1 set1 rng len ix1 by (simp add: sort_inv_def)
  have ps: "pool_strs (h2, p\<lparr>pool_s := s1\<rparr>) = swap_list i j (pool_strs (h, p))"
    using il jl by (simp add: pool_strs_def strs s1_def swap_list_def map_update s_def)
  show ?thesis
    unfolding sw using inv1 ps ls1 by (simp add: hp Len_def s_def)
qed


lemma sift_down_to_strs:
  "sort_inv hp \<Longrightarrow> j < Len hp \<Longrightarrow>
   sort_inv (sift_down_to j hp) \<and> pool_strs (sift_down_to j hp) = sift_list j (pool_strs hp)
   \<and> Len (sift_down_to j hp) = Len hp"
proof (induction j arbitrary: hp)
  case 0
  then show ?case by simp
next
  case (Suc j)
  have jl: "j < Len hp" using Suc.prems(2) by simp
  have ls: "Less (Suc j) j hp = (pool_strs hp ! Suc j < pool_strs hp ! j)"
    by (rule Less_strs [OF Suc.prems(2) jl])
  show ?case
  proof (cases "Less (Suc j) j hp")
    case False
    then show ?thesis using Suc.prems ls by simp
  next
    case True
    have sw: "sort_inv (Swap (Suc j) j hp)"
      "pool_strs (Swap (Suc j) j hp) = swap_list (Suc j) j (pool_strs hp)"
      "Len (Swap (Suc j) j hp) = Len hp"
      using Swap_sort_inv [OF Suc.prems(1) Suc.prems(2) jl] by simp_all
    have "sort_inv (sift_down_to j (Swap (Suc j) j hp))
          \<and> pool_strs (sift_down_to j (Swap (Suc j) j hp)) = sift_list j (pool_strs (Swap (Suc j) j hp))
          \<and> Len (sift_down_to j (Swap (Suc j) j hp)) = Len (Swap (Suc j) j hp)"
      by (rule Suc.IH [OF sw(1)]) (simp add: sw(3) jl)
    then show ?thesis
      using True ls sw by simp
  qed
qed

lemma sift_list_sorted:
  "sorted (A @ B) \<Longrightarrow> \<forall>b \<in> set B. x < b \<Longrightarrow>
   \<exists>R. sift_list (length A) (A @ x # B @ C) = R @ C \<and> sorted R
       \<and> set R = set (A @ x # B) \<and> length R = length A + 1 + length B"
proof (induction A arbitrary: B rule: rev_induct)
  case Nil
  then have "sorted (x # B)" by (auto simp: less_imp_le)
  then show ?case by (intro exI [of _ "x # B"]) simp
next
  case (snoc y A)
  have n1: "(A @ [y]) @ x # B @ C = A @ y # x # B @ C" by simp
  have e1: "(A @ y # x # B @ C) ! Suc (length A) = x" 
    by (simp add: nth_append)
  have e2: "(A @ y # x # B @ C) ! length A = y" by simp
  show ?case
  proof (cases "x < y")
    case True
    have sw: "swap_list (Suc (length A)) (length A) (A @ y # x # B @ C) = A @ x # (y # B) @ C"
      unfolding swap_list_def e1 e2 by (simp add: list_update_append)
    have s: "sorted (A @ (y # B))" using snoc.prems(1) by simp
    have b: "\<forall>b \<in> set (y # B). x < b" using True snoc.prems(2) by simp
    obtain R where R: "sift_list (length A) (A @ x # (y # B) @ C) = R @ C" "sorted R"
      "set R = set (A @ x # (y # B))" "length R = length A + 1 + length (y # B)"
      using snoc.IH [OF s b] by blast
    have "sift_list (length (A @ [y])) ((A @ [y]) @ x # B @ C) = R @ C"
      unfolding n1 using True e1 e2 sw R(1) by simp
    then show ?thesis
      using R by (intro exI [of _ R]) auto
  next
    case False
    then have yx: "y \<le> x" by simp
    have "sorted (A @ y # x # B)"
      using snoc.prems yx by (auto simp: sorted_append less_imp_le)
    moreover have "sift_list (length (A @ [y])) ((A @ [y]) @ x # B @ C) = (A @ y # x # B) @ C"
      unfolding n1 using False e1 e2 by simp
    ultimately show ?thesis
      by (intro exI [of _ "A @ y # x # B"]) auto
  qed
qed

lemma sift_list_step:
  assumes "sorted (take n ys)" "n < length ys"
  shows "sorted (take (Suc n) (sift_list n ys)) \<and> set (sift_list n ys) = set ys
         \<and> length (sift_list n ys) = length ys"
proof -
  have ys: "ys = take n ys @ ys ! n # [] @ drop (Suc n) ys"
    using assms(2) by (simp add: id_take_nth_drop)
  have ln: "length (take n ys) = n" using assms(2) by simp
  obtain R where R: "sift_list (length (take n ys)) (take n ys @ ys ! n # [] @ drop (Suc n) ys) = R @ drop (Suc n) ys"
    "sorted R" "set R = set (take n ys @ ys ! n # [])" "length R = length (take n ys) + 1 + length ([] :: string list)"
    using sift_list_sorted [of "take n ys" "[]" "ys ! n" "drop (Suc n) ys"] assms(1) by auto
  have e: "sift_list n ys = R @ drop (Suc n) ys"
    using R(1) unfolding ln using ys by simp
  have lR: "length R = Suc n" using R(4) ln by simp
  have sy: "set ys = set (take n ys) \<union> {ys ! n} \<union> set (drop (Suc n) ys)"
    using arg_cong [OF ys, where f = set] by simp
  have st: "set (sift_list n ys) = set ys"
    unfolding e sy using R(3) by auto
  have "length (R @ drop (Suc n) ys) = length ys" using lR assms(2) by simp
  then show ?thesis
    using e lR R(2) st by simp
qed

lemma insertion_list:
  "n \<le> length xs \<Longrightarrow>
   sorted (take n (foldl (\<lambda>xs i. sift_list i xs) xs [1..<n]))
   \<and> set (foldl (\<lambda>xs i. sift_list i xs) xs [1..<n]) = set xs
   \<and> length (foldl (\<lambda>xs i. sift_list i xs) xs [1..<n]) = length xs"
proof (induction n)
  case 0
  then show ?case by simp
next
  case (Suc n)
  show ?case
  proof (cases "n = 0")
    case True
    then show ?thesis by (cases xs) simp_all
  next
    case False
    define ys where "ys = foldl (\<lambda>xs i. sift_list i xs) xs [1..<n]"
    have ih: "sorted (take n ys)" "set ys = set xs" "length ys = length xs"
      using Suc.IH Suc.prems by (simp_all add: ys_def)
    have f: "foldl (\<lambda>xs i. sift_list i xs) xs [1..<Suc n] = sift_list n ys"
      using False by (simp add: ys_def)
    have "n < length ys" using Suc.prems ih(3) by simp
    from sift_list_step [OF ih(1) this] show ?thesis
      unfolding f using ih by simp
  qed
qed

lemma insertion_pool:
  "sort_inv hp \<Longrightarrow> n \<le> Len hp \<Longrightarrow>
   sort_inv (foldl (\<lambda>hp i. sift_down_to i hp) hp [1..<n])
   \<and> pool_strs (foldl (\<lambda>hp i. sift_down_to i hp) hp [1..<n])
       = foldl (\<lambda>xs i. sift_list i xs) (pool_strs hp) [1..<n]
   \<and> Len (foldl (\<lambda>hp i. sift_down_to i hp) hp [1..<n]) = Len hp"
proof (induction n)
  case 0
  then show ?case by simp
next
  case (Suc n)
  show ?case
  proof (cases "n = 0")
    case True
    then show ?thesis using Suc.prems by simp
  next
    case False
    define hq where "hq = foldl (\<lambda>hp i. sift_down_to i hp) hp [1..<n]"
    have ih: "sort_inv hq" "pool_strs hq = foldl (\<lambda>xs i. sift_list i xs) (pool_strs hp) [1..<n]"
      "Len hq = Len hp"
      using Suc.IH Suc.prems by (simp_all add: hq_def)
    have f: "foldl (\<lambda>hp i. sift_down_to i hp) hp [1..<Suc n] = sift_down_to n hq"
      using False by (simp add: hq_def)
    have g: "foldl (\<lambda>xs i. sift_list i xs) (pool_strs hp) [1..<Suc n]
             = sift_list n (foldl (\<lambda>xs i. sift_list i xs) (pool_strs hp) [1..<n])"
      using False by simp
    have "n < Len hq" using Suc.prems(2) ih(3) by simp
    from sift_down_to_strs [OF ih(1) this] show ?thesis
      unfolding f g using ih by simp
  qed
qed

lemma sortPool_sorted:
  assumes "sort_inv hp"
  shows "sort_inv (sortPool hp) \<and> sorted (pool_strs (sortPool hp))
         \<and> set (pool_strs (sortPool hp)) = set (pool_strs hp)
         \<and> Len (sortPool hp) = Len hp"
proof -
  have 1: "sort_inv (sortPool hp)"
    "pool_strs (sortPool hp) = foldl (\<lambda>xs i. sift_list i xs) (pool_strs hp) [1..<Len hp]"
    "Len (sortPool hp) = Len hp"
    using insertion_pool [OF assms, of "Len hp"] by (simp_all add: sortPool_def insertionSort_def)
  define ys where "ys = foldl (\<lambda>xs i. sift_list i xs) (pool_strs hp) [1..<Len hp]"
  have "Len hp \<le> length (pool_strs hp)" by (simp add: Len_strs)
  note il = insertion_list [OF this, folded ys_def]
  have 2: "sorted (take (Len hp) ys)" "set ys = set (pool_strs hp)" "length ys = Len hp"
    using il [THEN conjunct1] il [THEN conjunct2, THEN conjunct1] il [THEN conjunct2, THEN conjunct2]
    by (simp_all only: Len_strs)
  have "take (Len hp) ys = ys" using 2(3) by simp
  then have "sorted ys" using 2(1) by simp
  then show ?thesis using 1 2 by (simp add: ys_def)
qed


lemma pool_inv_empty: "pool_inv ([], new_binStringPool)"
  by (simp add: pool_inv_def sort_inv_def new_binStringPool_def)

lemma get_pool_inv:
  assumes inv: "pool_inv (h, p)" and g: "get st (h, p) = Inr (r, h', p')"
  shows "pool_inv (h', p')"
proof (cases "pool_m p st")
  case (Some r0)
  then show ?thesis using g inv by (simp add: get_old)
next
  case None
  have short: "length st < 65536"
    using g None by (cases "length st < 65536") (simp_all add: get_panic)
  define s where "s = pool_s p"
  define e where "e = \<lparr>ind = of_nat (length s), str = st, enc = encode_bstring st\<rparr>"
  have h': "h' = h @ [e]" and p': "p' = p\<lparr>pool_s := s @ [length h], pool_m := (pool_m p)(st \<mapsto> length h)\<rparr>"
    using g by (auto simp: get_new [OF None short] e_def s_def)
  have d: "distinct s" and rng: "\<forall>a \<in> set s. a < length h"
    and ix: "\<forall>k < length s. ind (h ! (s ! k)) = of_nat k"
    and m1: "\<forall>st a. pool_m p st = Some a \<longrightarrow> a \<in> set s \<and> str (h ! a) = st"
    and m2: "\<forall>a \<in> set s. pool_m p (str (h ! a)) = Some a"
    using inv by (simp_all add: pool_inv_def sort_inv_def s_def)
  have fresh: "length h \<notin> set s" using rng by auto
  have old: "(h @ [e]) ! a = h ! a" if "a \<in> set s" for a
    using rng that by (simp add: nth_append)
  have ne: "str (h ! a) \<noteq> st" if "a \<in> set s" for a
    using m2 that None by auto
  have 1: "distinct (s @ [length h])" using d fresh by simp
  have 2: "\<forall>a \<in> set (s @ [length h]). a < length (h @ [e])" using rng by auto
  have 3: "\<forall>k < length (s @ [length h]). ind ((h @ [e]) ! ((s @ [length h]) ! k)) = of_nat k"
  proof (intro allI impI)
    fix k assume k: "k < length (s @ [length h])"
    show "ind ((h @ [e]) ! ((s @ [length h]) ! k)) = of_nat k"
    proof (cases "k < length s")
      case True
      then show ?thesis using ix old by (simp add: nth_append)
    next
      case False
      then have "k = length s" using k by simp
      then show ?thesis by (simp add: e_def)
    qed
  qed
  have 4: "\<forall>st' a. ((pool_m p)(st \<mapsto> length h)) st' = Some a
             \<longrightarrow> a \<in> set (s @ [length h]) \<and> str ((h @ [e]) ! a) = st'"
    using m1 old by (auto simp: e_def)
  have 5: "\<forall>a \<in> set (s @ [length h]). ((pool_m p)(st \<mapsto> length h)) (str ((h @ [e]) ! a)) = Some a"
    using m2 old ne by (auto simp: e_def)
  show ?thesis
    unfolding h' p' using 1 2 3 4 5 by (simp add: pool_inv_def sort_inv_def)
qed

lemma get_all_pool_inv:
  "pool_inv hp \<Longrightarrow> get_all sts hp = Inr hp' \<Longrightarrow> pool_inv hp'"
proof (induction sts arbitrary: hp)
  case Nil
  then show ?case by simp
next
  case (Cons st sts)
  obtain h p where hp: "hp = (h, p)" by (cases hp)
  from Cons.prems(2) obtain r h1 p1 where g: "get st (h, p) = Inr (r, h1, p1)"
    and rest: "get_all sts (h1, p1) = Inr hp'"
    by (auto simp: hp split: sum.splits)
  have "pool_inv (h1, p1)" using get_pool_inv [OF _ g] Cons.prems(1) hp by simp
  then show ?case using Cons.IH rest by blast
qed

lemma getAttr_pool_inv:
  assumes inv: "pool_inv (h, p)" and g: "getAttr attr (h, p) = Inr (x, h', p')"
  shows "pool_inv (h', p')"
proof -
  from g obtain r1 h1 p1 r2 h2 p2 where
    g1: "get (Space (Name attr)) (h, p) = Inr (r1, h1, p1)"
    and g2: "get (Local (Name attr)) (h1, p1) = Inr (r2, h2, p2)"
    and rest: "(h', p') = (h2, p2) \<or> (\<exists>r. get (Value attr) (h2, p2) = Inr (r, h', p'))"
    unfolding getAttr_def Let_def
    by (auto split: sum.splits prod.splits if_splits)
  have i2: "pool_inv (h2, p2)"
    using get_pool_inv [OF get_pool_inv [OF inv g1] g2] .
  from rest show ?thesis
    using i2 get_pool_inv [OF i2] by auto
qed


lemma attr_loop_pool_inv:
  "pool_inv hp0 \<Longrightarrow> attr_loop ln d as (hp0, els, nse, acc) = Inr (hp1, els', nse', acc')
   \<Longrightarrow> pool_inv hp1"
proof (induction as arbitrary: hp0 els nse acc)
  case Nil
  then show ?case by simp
next
  case (Cons a as)
  obtain h p where hp0: "hp0 = (h, p)" by (cases hp0)
  show ?case
  proof (cases "Space (Name a) = ''xmlns''")
    case True
    from Cons.prems(2) obtain pre h1 p1 u h2 p2 pre' h3 p3 u' h4 p4 where
      g: "get (Local (Name a)) (h, p) = Inr (pre, h1, p1)"
         "get (Value a) (h1, p1) = Inr (u, h2, p2)"
         "get (Local (Name a)) (h2, p2) = Inr (pre', h3, p3)"
         "get (Value a) (h3, p3) = Inr (u', h4, p4)"
      and rest: "attr_loop ln d as ((h4, p4), els @ [BinStartNamspace ln pre u],
                   nse(d \<mapsto> BinEndNamspace ln pre' u'), acc) = Inr (hp1, els', nse', acc')"
      using True by (auto simp: hp0 split: sum.splits prod.splits)
    have "pool_inv (h4, p4)"
      using Cons.prems(1) g hp0 get_pool_inv by blast
    then show ?thesis using Cons.IH rest by blast
  next
    case False
    from Cons.prems(2) obtain ba h1 p1 where
      g: "getAttr a (h, p) = Inr (Inr ba, h1, p1)"
      and rest: "attr_loop ln d as ((h1, p1), els, nse, acc @ [ba]) = Inr (hp1, els', nse', acc')"
      using False by (auto simp: hp0 split: sum.splits prod.splits)
    have "pool_inv (h1, p1)"
      using Cons.prems(1) g hp0 getAttr_pool_inv by blast
    then show ?thesis using Cons.IH rest by blast
  qed
qed

lemma token_loop_pool_inv:
  "pool_inv (pool st) \<Longrightarrow> token_loop steps st = Inr st' \<Longrightarrow> pool_inv (pool st')"
proof (induction steps arbitrary: st)
  case Nil
  then show ?case by simp
next
  case (Cons sp sps)
  define ln where "ln = line (lr st) (offset_before sp)"
  define st1 where "st1 = st\<lparr>lr := foldl Read (lr st) (chunks_read sp)\<rparr>"
  have p1: "pool st1 = pool st" by (simp add: st1_def)
  obtain h p where hp: "pool st = (h, p)" by (cases "pool st")
  note eq = Cons.prems(2) [unfolded token_loop.simps Let_def, folded ln_def st1_def]
  show ?case
  proof (cases "token sp")
    case (StartElement nm attrs)
    from eq obtain hp1 els nse acc r1 h2 p2 r2 h3 p3 where
      a: "attr_loop ln (depth st1) attrs (pool st1, elements st1, namespaceEnds st1, []) = Inr (hp1, els, nse, acc)"
      and g: "get (Space nm) hp1 = Inr (r1, h2, p2)" "get (Local nm) (h2, p2) = Inr (r2, h3, p3)"
      and rest: "token_loop sps (st1\<lparr>pool := (h3, p3), depth := depth st1 + 1,
                           elements := els @ [BinStartElement ln r1 r2 acc],
                           namespaceEnds := nse\<rparr>) = Inr st'"
      unfolding StartElement by (auto split: sum.splits prod.splits)
    have "pool_inv hp1" using attr_loop_pool_inv [OF _ a] Cons.prems(1) p1 by simp
    then have "pool_inv (h3, p3)" using g get_pool_inv by (cases hp1) blast
    then show ?thesis using Cons.IH [OF _ rest] by simp
  next
    case (EndElement nm)
    from eq obtain r1 h2 p2 r2 h3 p3 st2 where
      g: "get (Space nm) (pool st1) = Inr (r1, h2, p2)" "get (Local nm) (h2, p2) = Inr (r2, h3, p3)"
      and rest: "token_loop sps st2 = Inr st'" and p2: "pool st2 = (h3, p3)"
      unfolding EndElement by (auto split: sum.splits prod.splits option.splits)
    have "pool_inv (h3, p3)"
      using g get_pool_inv Cons.prems(1) p1 hp by (metis)
    then show ?thesis using Cons.IH [OF _ rest] p2 by simp
  next
    case (CharData cd)
    show ?thesis
    proof (cases "TrimSpace cd = []")
      case True
      then have "token_loop sps st1 = Inr st'" using eq CharData by simp
      then show ?thesis using Cons.IH [of st1] Cons.prems(1) p1 by simp
    next
      case False
      from eq obtain r h1 p1' where
        g: "get ([CHR 0x09] @ TrimSpace cd @ [CHR 0x0A]) (pool st1) = Inr (r, h1, p1')"
        and rest: "token_loop sps (st1\<lparr>pool := (h1, p1')\<rparr>) = Inr st'"
        unfolding CharData using False by (auto split: sum.splits prod.splits)
      have "pool_inv (h1, p1')"
        using g get_pool_inv Cons.prems(1) p1 hp by (metis)
      then show ?thesis using Cons.IH [OF _ rest] by simp
    qed
  next
    case (Comment c)
    then have "token_loop sps st1 = Inr st'" using eq by simp
    then show ?thesis using Cons.IH [of st1] Cons.prems(1) p1 by simp
  next
    case (ProcInst target inst)
    then have "token_loop sps st1 = Inr st'" using eq by simp
    then show ?thesis using Cons.IH [of st1] Cons.prems(1) p1 by simp
  next
    case (Directive dv)
    then have "token_loop sps st1 = Inr st'" using eq by simp
    then show ?thesis using Cons.IH [of st1] Cons.prems(1) p1 by simp
  qed
qed

lemma pool_inv_distinct_strs: "pool_inv hp \<Longrightarrow> distinct (pool_strs hp)"
proof -
  assume inv: "pool_inv hp"
  have "inj_on (\<lambda>a. str (fst hp ! a)) (set (pool_s (snd hp)))"
  proof (rule inj_onI)
    fix a b assume "a \<in> set (pool_s (snd hp))" "b \<in> set (pool_s (snd hp))"
      "str (fst hp ! a) = str (fst hp ! b)"
    then show "a = b" using inv unfolding pool_inv_def by (metis option.inject)
  qed
  moreover have "distinct (pool_s (snd hp))" using inv by (simp add: pool_inv_def sort_inv_def)
  ultimately show ?thesis by (simp add: pool_strs_def distinct_map)
qed

lemma get_twice: "get st (h, p) = Inr (r, h', p') \<Longrightarrow> get st (h', p') = Inr (r, h', p')"
proof (cases "pool_m p st")
  case None
  assume g: "get st (h, p) = Inr (r, h', p')"
  have short: "length st < 65536"
    using g None by (cases "length st < 65536") (simp_all add: get_panic)
  have "pool_m p' st = Some r"
    using g by (auto simp: get_new [OF None short])
  then show ?thesis by (rule get_old)
next
  case (Some r0)
  assume "get st (h, p) = Inr (r, h', p')"
  then show ?thesis using Some by (simp add: get_old)
qed

lemma get_present:
  assumes "pool_inv (h, p)" "st \<in> set (pool_strs (h, p))" "get st (h, p) = Inr (r, h', p')"
  shows "(h', p') = (h, p)"
proof -
  obtain a where "a \<in> set (pool_s p)" "str (h ! a) = st"
    using assms(2) by (auto simp: pool_strs_def)
  then have "pool_m p st = Some a" using assms(1) by (auto simp: pool_inv_def)
  then show ?thesis using assms(3) by (simp add: get_old)
qed


lemma reachable_pool_inv:
  assumes "get_all sts ([], new_binStringPool) = Inr hp
           \<or> (\<exists>steps st. token_loop steps init_state = Inr st \<and> pool st = hp)"
  shows "pool_inv hp"
  using assms
proof
  assume "get_all sts ([], new_binStringPool) = Inr hp"
  then show ?thesis using get_all_pool_inv [OF pool_inv_empty] by blast
next
  assume "\<exists>steps st. token_loop steps init_state = Inr st \<and> pool st = hp"
  then obtain steps st where t: "token_loop steps init_state = Inr st" and p: "pool st = hp"
    by blast
  have "pool_inv (pool init_state)" by (simp add: init_state_def pool_inv_empty)
  from token_loop_pool_inv [OF this t] show ?thesis using p by simp
qed

text \<open>
  Claim C6.  Take a pool built by interning strings one after the other, or the pool at the
  end of the encoder's token loop.  After \<^verbatim>\<open>sortPool\<close> its strings are strictly
  increasing in Go's string order, which is lexicographic on the unsigned bytes; when the
  strings are valid UTF-8, as the strings of the XML decoder are, they are strictly
  increasing in the lexicographic order of their code point sequences as well.  The index
  stored in every entry is the entry's position, and the strings are those of the pool
  before.  The order is strict because the
  pool never holds a string twice: interning a string again returns the same entry and
  leaves the pool as it is.
\<close>

theorem sorted_pool_strictly_increasing:
  assumes "get_all sts ([], new_binStringPool) = Inr hp
           \<or> (\<exists>steps st. token_loop steps init_state = Inr st \<and> pool st = hp)"
  shows "(\<forall>i j. i < j \<and> j < Len (sortPool hp)
            \<longrightarrow> pool_strs (sortPool hp) ! i < pool_strs (sortPool hp) ! j)
       \<and> (list_all ValidString (pool_strs hp) \<longrightarrow>
            (\<forall>i j. i < j \<and> j < Len (sortPool hp)
               \<longrightarrow> runes (pool_strs (sortPool hp) ! i) < runes (pool_strs (sortPool hp) ! j)))
       \<and> (\<forall>i < Len (sortPool hp). pool_inds (sortPool hp) ! i = of_nat i)
       \<and> (\<forall>i < Len (sortPool hp). i < 2 ^ 32 \<longrightarrow> unat (pool_inds (sortPool hp) ! i) = i)
       \<and> set (pool_strs (sortPool hp)) = set (pool_strs hp)
       \<and> Len (sortPool hp) = Len hp
       \<and> distinct (pool_strs hp)
       \<and> (\<forall>st r h' p'. get st hp = Inr (r, h', p')
            \<longrightarrow> get st (h', p') = Inr (r, h', p') \<and> (st \<in> set (pool_strs hp) \<longrightarrow> (h', p') = hp))"
proof -
  have inv: "pool_inv hp" by (rule reachable_pool_inv [OF assms])
  then have si: "sort_inv hp" by (simp add: pool_inv_def)
  note sp = sortPool_sorted [OF si]
  have d: "distinct (pool_strs hp)" by (rule pool_inv_distinct_strs [OF inv])
  have l: "length (pool_strs (sortPool hp)) = length (pool_strs hp)"
    using sp by (simp add: Len_strs)
  have "card (set (pool_strs (sortPool hp))) = length (pool_strs (sortPool hp))"
    using sp d l by (simp add: distinct_card)
  then have d': "distinct (pool_strs (sortPool hp))" by (rule card_distinct)
  have ss: "sorted_wrt (<) (pool_strs (sortPool hp))"
    using sp d' by (simp add: strict_sorted_iff)
  have 1: "\<forall>i j. i < j \<and> j < Len (sortPool hp)
            \<longrightarrow> pool_strs (sortPool hp) ! i < pool_strs (sortPool hp) ! j"
    using ss by (simp add: sorted_wrt_iff_nth_less Len_strs)
  have 5: "\<forall>i j. i < j \<and> j < Len (sortPool hp)
            \<longrightarrow> runes (pool_strs (sortPool hp) ! i) < runes (pool_strs (sortPool hp) ! j)"
    if v: "list_all ValidString (pool_strs hp)"
  proof (intro allI impI)
    fix i j assume ij: "i < j \<and> j < Len (sortPool hp)"
    have "pool_strs (sortPool hp) ! i \<in> set (pool_strs (sortPool hp))"
      "pool_strs (sortPool hp) ! j \<in> set (pool_strs (sortPool hp))"
      using ij by (simp_all add: Len_strs)
    then have "ValidString (pool_strs (sortPool hp) ! i)" "ValidString (pool_strs (sortPool hp) ! j)"
      using v sp by (simp_all add: list_all_iff)
    from bytewise_order_is_rune_order [OF this]
    show "runes (pool_strs (sortPool hp) ! i) < runes (pool_strs (sortPool hp) ! j)"
      using 1 ij by simp
  qed
  have 2: "\<forall>i < Len (sortPool hp). pool_inds (sortPool hp) ! i = of_nat i"
    using sp by (simp add: sort_inv_def pool_inds_def Len_def)
  have 3: "\<forall>i < Len (sortPool hp). i < 2 ^ 32 \<longrightarrow> unat (pool_inds (sortPool hp) ! i) = i"
  proof (intro allI impI)
    fix i assume "i < Len (sortPool hp)" "i < 2 ^ 32"
    then show "unat (pool_inds (sortPool hp) ! i) = i"
      using 2 by (simp add: unat_of_nat)
  qed
  have 4: "\<forall>st r h' p'. get st hp = Inr (r, h', p')
            \<longrightarrow> get st (h', p') = Inr (r, h', p') \<and> (st \<in> set (pool_strs hp) \<longrightarrow> (h', p') = hp)"
  proof (intro allI impI conjI)
    fix st r h' p' assume g: "get st hp = Inr (r, h', p')"
    show "get st (h', p') = Inr (r, h', p')"
      using g get_twice by (cases hp) simp
    assume "st \<in> set (pool_strs hp)"
    then show "(h', p') = hp"
      using g inv get_present by (cases hp) simp
  qed
  show ?thesis
    using 1 2 3 4 5 sp d by blast
qed

text \<open>
  Interning \<^verbatim>\<open>b\<close>, \<^verbatim>\<open>a\<close>, \<^verbatim>\<open>c\<close>, \<^verbatim>\<open>a\<close> gives three entries; sorted, they
  are \<^verbatim>\<open>a\<close>, \<^verbatim>\<open>b\<close>, \<^verbatim>\<open>c\<close> with the indices 0, 1, 2.
\<close>

theorem sorted_pool_strictly_increasing_witness:
  "\<exists>hp. get_all four_names ([], new_binStringPool) = Inr hp
     \<and> pool_strs hp = [''b'', ''a'', ''c'']
     \<and> pool_strs (sortPool hp) = [''a'', ''b'', ''c'']
     \<and> pool_inds (sortPool hp) = [0, 1, 2]
     \<and> pool_strs (sortPool hp) ! 0 < pool_strs (sortPool hp) ! 1
     \<and> pool_strs (sortPool hp) ! 1 < pool_strs (sortPool hp) ! 2"
proof -
  define e where "e = (\<lambda>i st. \<lparr>ind = i, str = st, enc = encode_bstring st\<rparr>)"
  define hp0 where "hp0 = ([e 0 ''b'', e 1 ''a'', e 2 ''c''],
      \<lparr>pool_s = [0, Suc 0, Suc (Suc 0)], pool_m = [''b'' \<mapsto> 0, ''a'' \<mapsto> Suc 0, ''c'' \<mapsto> Suc (Suc 0)]\<rparr>)"
  have g1: "get ''b'' ([], new_binStringPool)
        = Inr (0, [e 0 ''b''], \<lparr>pool_s = [0], pool_m = [''b'' \<mapsto> 0]\<rparr>)"
    by (subst get_new) (simp_all add: new_binStringPool_def e_def)
  have g2: "get ''a'' ([e 0 ''b''], \<lparr>pool_s = [0], pool_m = [''b'' \<mapsto> 0]\<rparr>)
        = Inr (Suc 0, [e 0 ''b'', e 1 ''a''], \<lparr>pool_s = [0, Suc 0], pool_m = [''b'' \<mapsto> 0, ''a'' \<mapsto> Suc 0]\<rparr>)"
    by (subst get_new) (simp_all add: e_def)
  have g3: "get ''c'' ([e 0 ''b'', e 1 ''a''], \<lparr>pool_s = [0, Suc 0], pool_m = [''b'' \<mapsto> 0, ''a'' \<mapsto> Suc 0]\<rparr>)
        = Inr (Suc (Suc 0), fst hp0, snd hp0)"
    by (subst get_new) (simp_all add: e_def hp0_def)
  have g4: "get ''a'' (fst hp0, snd hp0) = Inr (Suc 0, fst hp0, snd hp0)"
    by (subst get_old) (simp_all add: hp0_def)
  have ga: "get_all four_names ([], new_binStringPool) = Inr hp0"
    using g4 by (simp add: four_names_def g1 g2 g3)
  note th = sorted_pool_strictly_increasing [OF disjI1 [OF ga]]
  have s0: "pool_strs hp0 = [''b'', ''a'', ''c'']"
    by (simp add: pool_strs_def hp0_def e_def)
  have l1: "Less (Suc 0) 0 hp0" by (simp add: Less_def hp0_def e_def)
  define hp1 where "hp1 = ([e 1 ''b'', e 0 ''a'', e 2 ''c''],
      \<lparr>pool_s = [Suc 0, 0, Suc (Suc 0)], pool_m = [''b'' \<mapsto> 0, ''a'' \<mapsto> Suc 0, ''c'' \<mapsto> Suc (Suc 0)]\<rparr>)"
  have sw: "Swap (Suc 0) 0 hp0 = hp1"
    by (simp add: Swap_def hp0_def hp1_def e_def Let_def)
  have l2: "\<not> Less (Suc (Suc 0)) (Suc 0) hp1" by (simp add: Less_def hp1_def e_def)
  have u: "[Suc 0..<Suc (Suc (Suc 0))] = [Suc 0, Suc (Suc 0)]" by (simp add: upt_rec)
  have len: "Len hp0 = Suc (Suc (Suc 0))" by (simp add: Len_def hp0_def)
  have sp: "sortPool hp0 = hp1"
    by (simp add: sortPool_def insertionSort_def len u l1 l2 sw)
  have s1: "pool_strs (sortPool hp0) = [''a'', ''b'', ''c'']"
    by (simp add: sp pool_strs_def hp1_def e_def)
  have i1: "pool_inds (sortPool hp0) = [0, 1, 2]"
    by (simp add: sp pool_inds_def hp1_def e_def)
  have lt: "pool_strs (sortPool hp0) ! 0 < pool_strs (sortPool hp0) ! 1
     \<and> pool_strs (sortPool hp0) ! 1 < pool_strs (sortPool hp0) ! 2"
    using th [THEN conjunct1] by (simp add: sp Len_def hp1_def)
  show ?thesis
    using ga s0 s1 i1 lt by blast
qed

end
